theory Spec2Isabelle
  imports Complex_Main "HOL-Library.Word"
begin

unbundle bit_operations_syntax

section \<open>The compressed-string codec (LZString.decompressFromUTF16)\<close>

text \<open>
  Strings handled by the codec are sequences of UTF-16 code units, modelled as lists of
  natural numbers. A call either returns a string or \<open>null\<close>, throws a TypeError, or
  never leaves one of its \<open>while (power != maxpower)\<close> loops.
\<close>

type_synonym ustring = "nat list"

datatype jsvalue = VStr ustring | VNull

datatype outcome = Returns jsvalue | Throws | Diverges

text \<open>
  \<open>data = { val, position, index }\<close>. \<open>val\<close> is \<open>charCodeAt(i) - 32\<close>, which is NaN
  (here \<open>None\<close>) when \<open>i\<close> is past the end of the input.
\<close>

record data =
  val :: "int option"
  position :: nat
  index :: nat

definition getNextValue :: "ustring \<Rightarrow> nat \<Rightarrow> int option" where
  "getNextValue input i = (if i < length input then Some (int (input ! i) - 32) else None)"

text \<open>
  One round of the bit reader:
  \<open>resb = data.val & data.position; data.position >>= 1;
    if (data.position == 0) { data.position = resetValue; data.val = getNextValue(data.index++); }\<close>
  The result is \<open>resb > 0\<close>. \<open>NaN & p\<close> is \<open>0\<close>.
\<close>

definition readBit :: "ustring \<Rightarrow> nat \<Rightarrow> data \<Rightarrow> bool \<times> data" where
  "readBit input resetValue d =
     (let resb = (case val d of None \<Rightarrow> 0 | Some v \<Rightarrow> v AND int (position d));
          p = position d div 2;
          d' = (if p = 0
                then \<lparr> val = getNextValue input (index d), position = resetValue,
                       index = index d + 1 \<rparr>
                else d \<lparr> position := p \<rparr>)
      in (resb > 0, d'))"

text \<open>
  \<open>bits = 0; maxpower = Math.pow(2, n); power = 1;
    while (power != maxpower) { ...; bits |= (resb > 0 ? 1 : 0) * power; power <<= 1; }\<close>
  for \<open>n < 31\<close>, where the 32-bit shift \<open>power <<= 1\<close> reaches \<open>maxpower\<close> after
  \<open>n\<close> rounds. The first argument counts the rounds that remain.
\<close>

fun readBits :: "nat \<Rightarrow> ustring \<Rightarrow> nat \<Rightarrow> nat \<Rightarrow> nat \<Rightarrow> data \<Rightarrow> nat \<times> data" where
  "readBits 0 input resetValue pw bits d = (bits, d)"
| "readBits (Suc n) input resetValue pw bits d =
     (case readBit input resetValue d of
        (b, d') \<Rightarrow> readBits n input resetValue (2 * pw)
                     (bits OR (if b then 1 else 0) * pw) d')"

text \<open>
  Entries of \<open>dictionary\<close>: the numbers \<open>0, 1, 2\<close> of the seed, strings, and the value
  \<open>undefined\<close> that \<open>dictionary[3] = c\<close> stores when the preamble is \<open>3\<close>.
\<close>

datatype dentry = DNum nat | DStr ustring | DUndefined

record lz =
  lz_data :: data
  dictionary :: "nat \<Rightarrow> dentry option"
  enlargeIn :: int
  dictSize :: nat
  numBits :: nat
  lz_result :: "ustring option list"
  lz_w :: "ustring option"

text \<open>\<open>String.fromCharCode(bits)\<close>: one code unit, \<open>bits\<close> modulo \<open>2^16\<close>.\<close>

definition fromCharCode :: "nat \<Rightarrow> ustring" where
  "fromCharCode bits = [bits mod 65536]"

text \<open>\<open>result.join('')\<close>: an \<open>undefined\<close> element contributes the empty string.\<close>

definition join :: "ustring option list \<Rightarrow> ustring" where
  "join r = concat (map (\<lambda>x. case x of None \<Rightarrow> [] | Some s \<Rightarrow> s) r)"

text \<open>\<open>w + s\<close> for a string \<open>s\<close>: an undefined \<open>w\<close> is converted to the text "undefined".\<close>

definition str_of_w :: "ustring option \<Rightarrow> ustring" where
  "str_of_w x = (case x of None \<Rightarrow> map of_char ''undefined'' | Some s \<Rightarrow> s)"

text \<open>\<open>if (enlargeIn == 0) { enlargeIn = Math.pow(2, numBits); numBits++; }\<close>\<close>

definition enlarge :: "lz \<Rightarrow> lz" where
  "enlarge s = (if enlargeIn s = 0
                then s \<lparr> enlargeIn := 2 ^ numBits s, numBits := numBits s + 1 \<rparr>
                else s)"

text \<open>
  The part of the main loop's body after the \<open>switch\<close>, for the code \<open>c\<close>: look the entry
  up (or build it in the \<open>c === dictSize\<close> case), emit it and extend the dictionary.
\<close>

definition emit :: "nat \<Rightarrow> lz \<Rightarrow> outcome + lz" where
  "emit c s0 =
     (let s = enlarge s0;
          continue = (\<lambda>entry::ustring.
             Inr (enlarge (s \<lparr> lz_result := lz_result s @ [Some entry],
                               dictionary := (dictionary s)(dictSize s \<mapsto>
                                  DStr (str_of_w (lz_w s) @ take 1 entry)),
                               dictSize := dictSize s + 1,
                               enlargeIn := enlargeIn s - 1 \<rparr>) \<lparr> lz_w := Some entry \<rparr>));
          absent = (if c = dictSize s
                    then (case lz_w s of None \<Rightarrow> Inl Throws
                          | Some ws \<Rightarrow> continue (ws @ take 1 ws))
                    else Inl (Returns VNull))
      in case dictionary s c of
           Some (DStr e) \<Rightarrow> if e \<noteq> [] then continue e else absent
         | Some (DNum n) \<Rightarrow> if n \<noteq> 0 then Inl Throws else absent
         | Some DUndefined \<Rightarrow> absent
         | None \<Rightarrow> absent)"

text \<open>
  One round of \<open>while (true)\<close>, after the test \<open>data.index > length\<close>: read a code of
  \<open>numBits\<close> bits and dispatch on it. With \<open>numBits \<ge> 31\<close> the 32-bit \<open>power\<close> never
  equals \<open>maxpower\<close> and the inner loop does not end.
\<close>

definition literal :: "nat \<Rightarrow> ustring \<Rightarrow> nat \<Rightarrow> lz \<Rightarrow> data \<Rightarrow> outcome + lz" where
  "literal width input resetValue s d =
     (case readBits width input resetValue 1 0 d of
        (bits, d') \<Rightarrow>
          emit (dictSize s)
            (s \<lparr> lz_data := d',
                 dictionary := (dictionary s)(dictSize s \<mapsto> DStr (fromCharCode bits)),
                 dictSize := dictSize s + 1,
                 enlargeIn := enlargeIn s - 1 \<rparr>))"

definition step :: "ustring \<Rightarrow> nat \<Rightarrow> lz \<Rightarrow> outcome + lz" where
  "step input resetValue s =
     (if numBits s \<ge> 31 then Inl Diverges
      else case readBits (numBits s) input resetValue 1 0 (lz_data s) of
        (c, d) \<Rightarrow>
          if c = 0 then literal 8 input resetValue s d
          else if c = 1 then literal 16 input resetValue s d
          else if c = 2 then Inl (Returns (VStr (join (lz_result s))))
          else emit c (s \<lparr> lz_data := d \<rparr>))"

text \<open>
  Progress of the bit reader: the cursor \<open>index\<close> moved forward, or it stayed and
  \<open>position\<close> became smaller.
\<close>

definition adv :: "data \<Rightarrow> data \<Rightarrow> bool" where
  "adv d d' \<longleftrightarrow> index d < index d' \<or> (index d = index d' \<and> position d' < position d)"

lemma adv_trans: "adv a b \<Longrightarrow> adv b c \<Longrightarrow> adv a c"
  by (auto simp: adv_def)

lemma readBit_adv: "readBit input rv d = (b, d') \<Longrightarrow> adv d d'"
  by (auto simp: readBit_def adv_def Let_def split: if_splits)

lemma readBits_adv_eq:
  "readBits n input rv pw bits d = (r, d') \<Longrightarrow> d' = d \<or> adv d d'"
proof (induction n arbitrary: pw bits d)
  case 0
  then show ?case by simp
next
  case (Suc n)
  obtain b d1 where rb: "readBit input rv d = (b, d1)" by (cases "readBit input rv d")
  with Suc.prems have "readBits n input rv (2 * pw) (bits OR (if b then 1 else 0) * pw) d1 = (r, d')"
    by simp
  from Suc.IH [OF this] readBit_adv [OF rb] show ?case
    by (auto intro: adv_trans)
qed

lemma readBits_adv:
  "readBits (Suc n) input rv pw bits d = (r, d') \<Longrightarrow> adv d d'"
proof -
  assume a: "readBits (Suc n) input rv pw bits d = (r, d')"
  obtain b d1 where rb: "readBit input rv d = (b, d1)" by (cases "readBit input rv d")
  with a have "readBits n input rv (2 * pw) (bits OR (if b then 1 else 0) * pw) d1 = (r, d')"
    by simp
  from readBits_adv_eq [OF this] readBit_adv [OF rb] show ?thesis
    by (auto intro: adv_trans)
qed

lemma enlarge_data [simp]: "lz_data (enlarge s) = lz_data s"
  by (simp add: enlarge_def)

lemma emit_data: "emit c s = Inr s' \<Longrightarrow> lz_data s' = lz_data s"
  by (auto simp: emit_def Let_def split: option.splits dentry.splits if_splits)

lemma literal_adv:
  assumes "literal (Suc n) input rv s d = Inr s'"
  shows "adv d (lz_data s')"
proof -
  obtain bits d1 where r: "readBits (Suc n) input rv 1 0 d = (bits, d1)"
    by (cases "readBits (Suc n) input rv 1 0 d")
  with assms have "lz_data s' = d1"
    by (auto simp: literal_def dest!: emit_data)
  with readBits_adv [OF r] show ?thesis by simp
qed

lemma step_adv:
  assumes "step input rv s = Inr s'"
  shows "adv (lz_data s) (lz_data s')"
proof -
  obtain c d where r: "readBits (numBits s) input rv 1 0 (lz_data s) = (c, d)"
    by (cases "readBits (numBits s) input rv 1 0 (lz_data s)")
  from readBits_adv_eq [OF r] have d: "d = lz_data s \<or> adv (lz_data s) d" .
  consider (lit8) "c = 0" | (lit16) "c = 1" | (other) "c \<noteq> 0" "c \<noteq> 1" by blast
  then show ?thesis
  proof cases
    case lit8
    with assms r have "literal (Suc 7) input rv s d = Inr s'"
      by (simp add: step_def split: if_splits)
    from literal_adv [OF this] d show ?thesis by (auto intro: adv_trans)
  next
    case lit16
    with assms r have "literal (Suc 15) input rv s d = Inr s'"
      by (simp add: step_def split: if_splits)
    from literal_adv [OF this] d show ?thesis by (auto intro: adv_trans)
  next
    case other
    with assms r have e: "emit c (s \<lparr> lz_data := d \<rparr>) = Inr s'"
      by (auto simp: step_def split: if_splits)
    from other r have nz: "numBits s \<noteq> 0"
      by (cases "numBits s") auto
    then obtain n where "numBits s = Suc n" by (cases "numBits s") auto
    with r have "readBits (Suc n) input rv 1 0 (lz_data s) = (c, d)" by simp
    then have "adv (lz_data s) d" by (rule readBits_adv)
    with emit_data [OF e] show ?thesis by simp
  qed
qed

text \<open>
  \<open>while (true) { if (data.index > length) return ""; ... }\<close>
\<close>

function loop :: "ustring \<Rightarrow> nat \<Rightarrow> nat \<Rightarrow> lz \<Rightarrow> outcome" where
  "loop input len resetValue s =
     (if index (lz_data s) > len then Returns (VStr [])
      else case step input resetValue s of
             Inl r \<Rightarrow> r
           | Inr s' \<Rightarrow> loop input len resetValue s')"
  by pat_completeness auto
termination
proof (relation "measures [\<lambda>(input, len, rv, s). len + 1 - index (lz_data s),
                           \<lambda>(input, len, rv, s). position (lz_data s)]")
  show "wf (measures [\<lambda>(input, len, rv, s). len + 1 - index (lz_data s),
                      \<lambda>(input, len, rv, s). position (lz_data s)])"
    by simp
next
  fix input len resetValue s s'
  assume "\<not> len < index (lz_data s)" "step input resetValue s = Inr s'"
  with step_adv [of input resetValue s s']
  show "((input, len, resetValue, s'), (input, len, resetValue, s))
          \<in> measures [\<lambda>(input, len, rv, s). len + 1 - index (lz_data s),
                       \<lambda>(input, len, rv, s). position (lz_data s)]"
    by (auto simp: adv_def)
qed

declare loop.simps [simp del]

text \<open>
  The head of \<open>_decompress(length, resetValue, getNextValue)\<close>, with \<open>getNextValue\<close>
  reading the given input: the 2-bit preamble selects the width of the first literal
  \<open>c\<close>. The \<open>switch\<close> has no case for the preamble \<open>3\<close>, which leaves \<open>c\<close> undefined.
  The result is the early return of \<open>case 2\<close> or the state in which \<open>while (true)\<close> starts.
\<close>

definition bootstrap :: "nat \<Rightarrow> ustring \<Rightarrow> outcome + lz" where
  "bootstrap resetValue input =
     (let d0 = \<lparr> val = getNextValue input 0, position = resetValue, index = 1 \<rparr>
      in case readBits 2 input resetValue 1 0 d0 of
        (next, d1) \<Rightarrow>
          if next = 2 then Inl (Returns (VStr []))
          else
            let (c, d2) =
                  (if next = 0
                   then (case readBits 8 input resetValue 1 0 d1 of
                           (bits, d) \<Rightarrow> (Some (fromCharCode bits), d))
                   else if next = 1
                   then (case readBits 16 input resetValue 1 0 d1 of
                           (bits, d) \<Rightarrow> (Some (fromCharCode bits), d))
                   else (None, d1))
            in Inr \<lparr> lz_data = d2,
                     dictionary = [0 \<mapsto> DNum 0, 1 \<mapsto> DNum 1, 2 \<mapsto> DNum 2,
                                   3 \<mapsto> (case c of None \<Rightarrow> DUndefined | Some x \<Rightarrow> DStr x)],
                     enlargeIn = 4, dictSize = 4, numBits = 3,
                     lz_result = [c], lz_w = c \<rparr>)"

definition decompress :: "nat \<Rightarrow> nat \<Rightarrow> ustring \<Rightarrow> outcome" where
  "decompress len resetValue input =
     (case bootstrap resetValue input of
        Inl r \<Rightarrow> r
      | Inr s \<Rightarrow> loop input len resetValue s)"

text \<open>
  \<open>decompressFromUTF16(input)\<close>; \<open>None\<close> is a \<open>null\<close> (or undefined) argument.
\<close>

definition decompressFromUTF16 :: "ustring option \<Rightarrow> outcome" where
  "decompressFromUTF16 input =
     (case input of
        None \<Rightarrow> Returns (VStr [])
      | Some i \<Rightarrow> if i = [] then Returns VNull else decompress (length i) 16384 i)"

text \<open>
  The state after \<open>k\<close> full rounds of the main loop, when none of them returned.
\<close>

fun rounds :: "nat \<Rightarrow> ustring \<Rightarrow> nat \<Rightarrow> nat \<Rightarrow> lz \<Rightarrow> lz option" where
  "rounds 0 input len resetValue s = Some s"
| "rounds (Suc k) input len resetValue s =
     (if index (lz_data s) > len then None
      else case step input resetValue s of
             Inl r \<Rightarrow> None
           | Inr s' \<Rightarrow> rounds k input len resetValue s')"

subsection \<open>Degenerate inputs\<close>

text \<open>
  C10: \<open>decompressFromUTF16\<close> returns the empty string for a null input and \<open>null\<close>
  for the empty string; the two results differ and neither call throws.
\<close>

theorem decompressFromUTF16_degenerate:
  "decompressFromUTF16 None = Returns (VStr [])
   \<and> decompressFromUTF16 (Some []) = Returns VNull
   \<and> decompressFromUTF16 None \<noteq> decompressFromUTF16 (Some [])"
  by (simp add: decompressFromUTF16_def)

subsection \<open>Failure modes of the codec\<close>

lemma loop_rounds:
  "rounds k input len rv s = Some t \<Longrightarrow> loop input len rv s = loop input len rv t"
proof (induction k arbitrary: s)
  case 0
  then show ?case by simp
next
  case (Suc k)
  from Suc.prems obtain s' where le: "\<not> index (lz_data s) > len"
    and st: "step input rv s = Inr s'" and r: "rounds k input len rv s' = Some t"
    by (auto split: if_splits sum.splits)
  from le st have "loop input len rv s = loop input len rv s'"
    by (simp add: loop.simps [of input len rv s])
  with Suc.IH [OF r] show ?case by simp
qed

text \<open>
  Invariant of the main loop: the dictionary holds numbers only in the three seed slots
  and nothing at or above \<open>dictSize\<close>.
\<close>

definition lz_inv :: "lz \<Rightarrow> bool" where
  "lz_inv s \<longleftrightarrow> 3 \<le> dictSize s
     \<and> (\<forall>k n. dictionary s k = Some (DNum n) \<longrightarrow> k < 3)
     \<and> (\<forall>k. dictSize s \<le> k \<longrightarrow> dictionary s k = None)"

lemma enlarge_inv [simp]: "lz_inv (enlarge s) = lz_inv s"
  by (simp add: enlarge_def lz_inv_def)

lemma lz_inv_data [simp]: "lz_inv (s \<lparr> lz_data := d \<rparr>) = lz_inv s"
  by (simp add: lz_inv_def)

lemma enlarge_fields [simp]:
  "dictionary (enlarge s) = dictionary s" "dictSize (enlarge s) = dictSize s"
  "lz_w (enlarge s) = lz_w s" "lz_result (enlarge s) = lz_result s"
  by (simp_all add: enlarge_def)

lemma emit_inv:
  assumes "lz_inv s" "3 \<le> c"
  shows "lz_w s \<noteq> None \<Longrightarrow> emit c s \<noteq> Inl Throws"
    and "emit c s = Inr s' \<Longrightarrow> lz_inv s' \<and> lz_w s' \<noteq> None"
  using assms
  by (auto simp: emit_def Let_def lz_inv_def split: option.splits dentry.splits if_splits)

lemma emit_absent:
  assumes "lz_inv s" "dictSize s < c"
  shows "emit c s = Inl (Returns VNull)"
  using assms by (auto simp: emit_def Let_def lz_inv_def split: option.splits dentry.splits)


lemma literal_inv:
  assumes "lz_inv s"
  shows "lz_w s \<noteq> None \<Longrightarrow> literal width input rv s d \<noteq> Inl Throws"
    and "literal width input rv s d = Inr s' \<Longrightarrow> lz_inv s' \<and> lz_w s' \<noteq> None"
proof -
  obtain bits d1 where r: "readBits width input rv 1 0 d = (bits, d1)"
    by (cases "readBits width input rv 1 0 d")
  let ?s1 = "s \<lparr> lz_data := d1,
                  dictionary := (dictionary s)(dictSize s \<mapsto> DStr (fromCharCode bits)),
                  dictSize := dictSize s + 1,
                  enlargeIn := enlargeIn s - 1 \<rparr>"
  from assms have i1: "lz_inv ?s1" and c: "3 \<le> dictSize s"
    by (auto simp: lz_inv_def)
  have l: "literal width input rv s d = emit (dictSize s) ?s1"
    using r by (simp add: literal_def)
  from emit_inv(1) [OF i1 c] l
  show "lz_w s \<noteq> None \<Longrightarrow> literal width input rv s d \<noteq> Inl Throws" by simp
  assume "literal width input rv s d = Inr s'"
  with l have "emit (dictSize s) ?s1 = Inr s'" by simp
  from emit_inv(2) [OF i1 c this] show "lz_inv s' \<and> lz_w s' \<noteq> None" .
qed

lemma step_inv:
  assumes "lz_inv s"
  shows "lz_w s \<noteq> None \<Longrightarrow> step input rv s \<noteq> Inl Throws"
    and "step input rv s = Inr s' \<Longrightarrow> lz_inv s' \<and> lz_w s' \<noteq> None"
proof -
  obtain c d where r: "readBits (numBits s) input rv 1 0 (lz_data s) = (c, d)"
    by (cases "readBits (numBits s) input rv 1 0 (lz_data s)")
  from assms have i: "lz_inv (s \<lparr> lz_data := d \<rparr>)" by simp
  have e: "lz_w s \<noteq> None \<Longrightarrow> 3 \<le> c \<Longrightarrow> emit c (s \<lparr> lz_data := d \<rparr>) \<noteq> Inl Throws"
    using emit_inv(1) [OF i] by simp
  show "lz_w s \<noteq> None \<Longrightarrow> step input rv s \<noteq> Inl Throws"
    using r literal_inv(1) [OF assms] e
    by (auto simp: step_def)
  assume "step input rv s = Inr s'"
  then consider "literal 8 input rv s d = Inr s'" | "literal 16 input rv s d = Inr s'"
    | "3 \<le> c" "emit c (s \<lparr> lz_data := d \<rparr>) = Inr s'"
    using r by (auto simp: step_def split: if_splits)
  then show "lz_inv s' \<and> lz_w s' \<noteq> None"
  proof cases
    case 1
    then show ?thesis by (rule literal_inv(2) [OF assms])
  next
    case 2
    then show ?thesis by (rule literal_inv(2) [OF assms])
  next
    case 3
    then show ?thesis using emit_inv(2) [OF i] by simp
  qed
qed

lemma step_malformed:
  assumes "lz_inv s" "numBits s < 31"
    and "readBits (numBits s) input rv 1 0 (lz_data s) = (c, d)" "dictSize s < c"
  shows "step input rv s = Inl (Returns VNull)"
proof -
  from assms(1) have i: "lz_inv (s \<lparr> lz_data := d \<rparr>)" by simp
  from assms(4) have "dictSize (s \<lparr> lz_data := d \<rparr>) < c" by simp
  from emit_absent [OF i this] have e: "emit c (s \<lparr> lz_data := d \<rparr>) = Inl (Returns VNull)" .
  from assms(1,4) have "3 \<le> c" by (simp add: lz_inv_def)
  with assms(2,3) e show ?thesis by (simp add: step_def)
qed

lemma loop_no_throw: "lz_inv s \<Longrightarrow> lz_w s \<noteq> None \<Longrightarrow> loop input len rv s \<noteq> Throws"
proof (induction input len rv s rule: loop.induct)
  case (1 input len rv s)
  show ?case
  proof (cases "index (lz_data s) > len")
    case True
    then show ?thesis by (simp add: loop.simps [of input len rv s])
  next
    case False
    show ?thesis
    proof (cases "step input rv s")
      case (Inl r)
      with step_inv(1) [OF "1.prems"] have "r \<noteq> Throws" by auto
      with False Inl show ?thesis by (simp add: loop.simps [of input len rv s])
    next
      case (Inr s')
      from step_inv(2) [OF "1.prems"(1) Inr] have "lz_inv s'" "lz_w s' \<noteq> None" by simp_all
      from "1.IH" [OF False Inr this] False Inr show ?thesis
        by (simp add: loop.simps [of input len rv s])
    qed
  qed
qed

lemma rounds_inv: "rounds k input len rv s = Some t \<Longrightarrow> lz_inv s \<Longrightarrow> lz_inv t"
proof (induction k arbitrary: s)
  case 0
  then show ?case by simp
next
  case (Suc k)
  from Suc.prems(1) obtain s' where st: "step input rv s = Inr s'"
    and r: "rounds k input len rv s' = Some t"
    by (auto split: if_splits sum.splits)
  from step_inv(2) [OF Suc.prems(2) st] Suc.IH [OF r] show ?case by simp
qed

lemma bootstrap_Inl: "bootstrap rv input = Inl r \<Longrightarrow> r = Returns (VStr [])"
  by (auto simp: bootstrap_def Let_def split: prod.splits if_splits)

lemma bootstrap_inv: "bootstrap rv input = Inr s \<Longrightarrow> lz_inv s"
  by (auto simp: bootstrap_def Let_def lz_inv_def split: prod.splits if_splits)


text \<open>
  C2 (as amended): for a non-empty input, \<open>decompressFromUTF16\<close> returns the empty
  string when the 2-bit preamble is \<open>2\<close>, and when a round of the main loop starts with
  the cursor past the input's length (truncation). When a round reads a code larger than
  \<open>dictSize\<close> (neither a literal marker, nor the terminator, nor an existing dictionary
  index, nor \<open>dictSize\<close> itself) it returns \<open>null\<close>, not the empty string.
  It does not throw when the first literal is defined (preamble \<open>0\<close> or \<open>1\<close>).
\<close>

theorem decompressFromUTF16_failure_modes:
  assumes "input \<noteq> []"
  shows "(fst (readBits 2 input 16384 1 0
                 \<lparr> val = getNextValue input 0, position = 16384, index = 1 \<rparr>) = 2
            \<longrightarrow> decompressFromUTF16 (Some input) = Returns (VStr []))
       \<and> (\<forall>s0. bootstrap 16384 input = Inr s0 \<longrightarrow>
            (lz_w s0 \<noteq> None \<longrightarrow> decompressFromUTF16 (Some input) \<noteq> Throws)
          \<and> (\<forall>k s. rounds k input (length input) 16384 s0 = Some s \<longrightarrow>
               (length input < index (lz_data s)
                  \<longrightarrow> decompressFromUTF16 (Some input) = Returns (VStr []))
             \<and> (\<forall>c d. \<not> length input < index (lz_data s) \<and> numBits s < 31
                        \<and> readBits (numBits s) input 16384 1 0 (lz_data s) = (c, d)
                        \<and> dictSize s < c
                  \<longrightarrow> decompressFromUTF16 (Some input) = Returns VNull)))"
proof (intro conjI allI impI)
  assume "fst (readBits 2 input 16384 1 0
                 \<lparr> val = getNextValue input 0, position = 16384, index = 1 \<rparr>) = 2"
  then have "bootstrap 16384 input = Inl (Returns (VStr []))"
    by (cases "readBits 2 input 16384 1 0
                 \<lparr> val = getNextValue input 0, position = 16384, index = 1 \<rparr>")
       (simp add: bootstrap_def)
  with assms show "decompressFromUTF16 (Some input) = Returns (VStr [])"
    by (simp add: decompressFromUTF16_def decompress_def)
next
  fix s0
  assume b: "bootstrap 16384 input = Inr s0" and w: "lz_w s0 \<noteq> None"
  from loop_no_throw [OF bootstrap_inv [OF b] w] b assms
  show "decompressFromUTF16 (Some input) \<noteq> Throws"
    by (simp add: decompressFromUTF16_def decompress_def)
next
  fix s0 k s
  assume b: "bootstrap 16384 input = Inr s0"
    and r: "rounds k input (length input) 16384 s0 = Some s"
    and t: "length input < index (lz_data s)"
  from b assms loop_rounds [OF r]
  have "decompressFromUTF16 (Some input) = loop input (length input) 16384 s"
    by (simp add: decompressFromUTF16_def decompress_def)
  with t show "decompressFromUTF16 (Some input) = Returns (VStr [])"
    by (simp add: loop.simps [of input "length input" 16384 s])
next
  fix s0 k s c d
  assume b: "bootstrap 16384 input = Inr s0"
    and r: "rounds k input (length input) 16384 s0 = Some s"
    and m: "\<not> length input < index (lz_data s) \<and> numBits s < 31
              \<and> readBits (numBits s) input 16384 1 0 (lz_data s) = (c, d)
              \<and> dictSize s < c"
  from b assms loop_rounds [OF r]
  have e: "decompressFromUTF16 (Some input) = loop input (length input) 16384 s"
    by (simp add: decompressFromUTF16_def decompress_def)
  from rounds_inv [OF r bootstrap_inv [OF b]] have "lz_inv s" .
  from step_malformed [OF this] m have "step input 16384 s = Inl (Returns VNull)" by blast
  with m e show "decompressFromUTF16 (Some input) = Returns VNull"
    by (simp add: loop.simps [of input "length input" 16384 s])
qed

text \<open>
  Evaluation of the codec on concrete inputs: the bit reader unfolds on a concrete
  \<open>data\<close> record only, and the main loop on a concrete state only.
\<close>

lemma readBits_numeral:
  "readBits (numeral k) input rv pw bits \<lparr>val = v, position = p, index = i\<rparr> =
     readBits (pred_numeral k) input rv (2 * pw)
        (bits OR (if fst (readBit input rv \<lparr>val = v, position = p, index = i\<rparr>) then 1 else 0) * pw)
        (snd (readBit input rv \<lparr>val = v, position = p, index = i\<rparr>))"
  by (simp add: numeral_eq_Suc split: prod.splits)

lemmas loop_rec = loop.simps [of _ _ _ "\<lparr>lz_data = d, dictionary = di, enlargeIn = e, dictSize = ds, numBits = nb, lz_result = r, lz_w = w\<rparr>" for d di e ds nb r w]

lemmas codec_eval = decompressFromUTF16_def decompress_def bootstrap_def readBit_def
  getNextValue_def fromCharCode_def Let_def readBits_numeral loop_rec step_def literal_def
  emit_def enlarge_def join_def str_of_w_def

theorem decompressFromUTF16_failure_modes_witness:
  "decompressFromUTF16 (Some [8224]) = Returns (VStr [])
   \<and> decompressFromUTF16 (Some [32]) = Returns (VStr [])
   \<and> decompressFromUTF16 (Some [4340]) = Returns VNull
   \<and> decompressFromUTF16 (Some [4340]) \<noteq> Throws"
proof -
  have p2: "fst (readBits 2 [8224] 16384 1 0
              \<lparr> val = getNextValue [8224] 0, position = 16384, index = 1 \<rparr>) = 2"
    by (simp add: codec_eval)
  obtain s0 s1 where t: "bootstrap 16384 [32] = Inr s0" "rounds 1 [32] (length [32::nat]) 16384 s0 = Some s1"
      "length [32::nat] < index (lz_data s1)"
    by (simp add: codec_eval)
  obtain m0 d where m: "bootstrap 16384 [4340] = Inr m0" "lz_w m0 \<noteq> None"
      "rounds 0 [4340] (length [4340::nat]) 16384 m0 = Some m0"
      "\<not> length [4340::nat] < index (lz_data m0)" "numBits m0 < 31"
      "readBits (numBits m0) [4340] 16384 1 0 (lz_data m0) = (5, d)" "dictSize m0 < 5"
    by (simp add: codec_eval)
  from decompressFromUTF16_failure_modes [of "[8224]"] p2
  have a: "decompressFromUTF16 (Some [8224]) = Returns (VStr [])" by blast
  from decompressFromUTF16_failure_modes [of "[32]"] t
  have b: "decompressFromUTF16 (Some [32]) = Returns (VStr [])" by blast
  from decompressFromUTF16_failure_modes [of "[4340]"] m
  have c: "decompressFromUTF16 (Some [4340]) = Returns VNull
           \<and> decompressFromUTF16 (Some [4340]) \<noteq> Throws" by blast
  from a b c show ?thesis by simp
qed

text \<open>
  The input \<open>[4340]\<close> carries the preamble \<open>0\<close>, the 8-bit literal \<open>97\<close> and then the
  3-bit code \<open>5\<close> while \<open>dictSize\<close> is \<open>4\<close>: a malformed code, on which the codec
  returns \<open>null\<close> and not the empty string.
\<close>

theorem decompressFromUTF16_malformed_counterexample:
  "decompressFromUTF16 (Some [4340]) = Returns VNull
   \<and> decompressFromUTF16 (Some [4340]) \<noteq> Returns (VStr [])"
  by (simp add: codec_eval)

text \<open>
  With the preamble \<open>3\<close> the first literal is undefined; the code \<open>4 = dictSize\<close> then
  evaluates \<open>w.charAt(0)\<close> on \<open>undefined\<close>, which throws.
\<close>

lemma decompressFromUTF16_preamble3_throws:
  "decompressFromUTF16 (Some [25632, 32]) = Throws"
  by (simp add: codec_eval)

section \<open>Syntax trees and JavaScript values\<close>

text \<open>
  The nodes of the parser's syntax tree that the deobfuscator inspects, with the fields it
  reads. The type \<open>'n\<close> is the type of JavaScript numbers. A numeric literal carries its
  value and its \<open>extra.raw\<close> text; a member expression its \<open>computed\<close> flag; the elements
  of an array expression may be holes.
\<close>

datatype 'n node =
    NumericLiteral 'n "string option"
  | StringLiteral string
  | BooleanLiteral bool
  | NullLiteral
  | Identifier string
  | UnaryExpression string "'n node"
  | BinaryExpression string "'n node" "'n node"
  | LogicalExpression string "'n node" "'n node"
  | ConditionalExpression "'n node" "'n node" "'n node"
  | SequenceExpression "'n node list"
  | MemberExpression "'n node" "'n node" bool
  | CallExpression "'n node" "'n node list"
  | AssignmentExpression string "'n node" "'n node"
  | ArrayExpression "'n node option list"
  | FunctionExpression "'n node option" "'n node list" "'n node"
  | ExpressionStatement "'n node"
  | VariableDeclaration string "'n node list"
  | VariableDeclarator "'n node" "'n node option"
  | ReturnStatement "'n node option"
  | IfStatement "'n node" "'n node" "'n node option"
  | BlockStatement "'n node list"
  | EmptyStatement
  | SwitchStatement "'n node" "'n node list"
  | SwitchCase "'n node option" "'n node list"
  | FunctionDeclaration "'n node option" "'n node list" "'n node"
  | Program "'n node list"

text \<open>
  The values the evaluator computes with. \<open>Undefined\<close> is both the value of \<open>void x\<close>
  and the evaluator's answer "not evaluable".
\<close>

datatype 'n val = Num 'n | Str string | Bool bool | Null | Undefined

text \<open>
  The arithmetic of JavaScript numbers (IEEE doubles) belongs to the language, not to the
  program: the operations the program applies to numbers are the fields of this record.
  \<open>n_falsy\<close> is \<open>!x\<close> (true of \<open>0\<close> and NaN), \<open>n_is_zero\<close> is \<open>x === 0\<close>,
  \<open>n_lt\<close> is \<open>x < y\<close>, \<open>n_ge\<close> is \<open>x >= y\<close>, \<open>n_str\<close> is the conversion to a string
  that \<open>+\<close> performs, \<open>n_index\<close> gives the array index that \<open>array[x]\<close> reads (none when
  \<open>x\<close> is not a non-negative integer), \<open>n_of_nat\<close> is the number of a length, and
  \<open>n_arith\<close> applies the binary operator with the given name (one of
  \<open>- * / % ** & | ^ << >> >>>\<close>).
\<close>

record 'n number_ops =
  n_neg :: "'n \<Rightarrow> 'n"
  n_bitnot :: "'n \<Rightarrow> 'n"
  n_add :: "'n \<Rightarrow> 'n \<Rightarrow> 'n"
  n_arith :: "string \<Rightarrow> 'n \<Rightarrow> 'n \<Rightarrow> 'n"
  n_falsy :: "'n \<Rightarrow> bool"
  n_is_zero :: "'n \<Rightarrow> bool"
  n_lt :: "'n \<Rightarrow> 'n \<Rightarrow> bool"
  n_ge :: "'n \<Rightarrow> 'n \<Rightarrow> bool"
  n_finite :: "'n \<Rightarrow> bool"
  n_str :: "'n \<Rightarrow> string"
  n_index :: "'n \<Rightarrow> nat option"
  n_of_nat :: "nat \<Rightarrow> 'n"

section \<open>The literal evaluator (evaluateNode)\<close>

text \<open>\<open>!arg\<close> for an evaluated argument.\<close>

fun js_not :: "'n number_ops \<Rightarrow> 'n val \<Rightarrow> bool" where
  "js_not ops (Num n) = n_falsy ops n"
| "js_not ops (Str s) = (s = [])"
| "js_not ops (Bool b) = (\<not> b)"
| "js_not ops Null = True"
| "js_not ops Undefined = True"

definition isNumericLiteral :: "'n node \<Rightarrow> bool" where
  "isNumericLiteral node = (case node of NumericLiteral v r \<Rightarrow> True | _ \<Rightarrow> False)"

text \<open>The \<open>switch (node.operator)\<close> of the unary case; an operator it does not list falls
  through to the final \<open>return undefined\<close>.\<close>

definition evalUnary :: "'n number_ops \<Rightarrow> string \<Rightarrow> 'n val \<Rightarrow> 'n val" where
  "evalUnary ops operator arg =
     (if operator = ''-'' then (case arg of Num n \<Rightarrow> Num (n_neg ops n) | _ \<Rightarrow> Undefined)
      else if operator = ''+'' then (case arg of Num n \<Rightarrow> Num n | _ \<Rightarrow> Undefined)
      else if operator = ''!'' then Bool (js_not ops arg)
      else if operator = ''~'' then (case arg of Num n \<Rightarrow> Num (n_bitnot ops n) | _ \<Rightarrow> Undefined)
      else Undefined)"

text \<open>The binary case, from \<open>left\<close> and \<open>right\<close> already evaluated.\<close>

definition evalBinary :: "'n number_ops \<Rightarrow> string \<Rightarrow> 'n val \<Rightarrow> 'n val \<Rightarrow> 'n val" where
  "evalBinary ops operator left right =
     (if left = Undefined \<and> right = Undefined then Undefined
      else if operator = ''+'' then
        (case (left, right) of
           (Str l, Str r) \<Rightarrow> Str (l @ r)
         | (Str l, Num r) \<Rightarrow> Str (l @ n_str ops r)
         | (Num l, Str r) \<Rightarrow> Str (n_str ops l @ r)
         | (Num l, Num r) \<Rightarrow> Num (n_add ops l r)
         | _ \<Rightarrow> Undefined)
      else
        (case (left, right) of
           (Num l, Num r) \<Rightarrow>
             if operator \<in> set [''-'', ''*'', ''**'', ''&'', ''|'', ''^'', ''<<'', ''>>'', ''>>>'']
             then Num (n_arith ops operator l r)
             else if operator \<in> set [''/'', ''%'']
             then (if \<not> n_is_zero ops r then Num (n_arith ops operator l r) else Undefined)
             else Undefined
         | _ \<Rightarrow> Undefined))"

fun evaluateNode :: "'n number_ops \<Rightarrow> 'n node \<Rightarrow> 'n val" where
  "evaluateNode ops (NumericLiteral v r) = Num v"
| "evaluateNode ops (StringLiteral v) = Str v"
| "evaluateNode ops (BooleanLiteral v) = Bool v"
| "evaluateNode ops NullLiteral = Null"
| "evaluateNode ops (UnaryExpression operator argument) =
     (let arg = evaluateNode ops argument
      in if arg = Undefined \<and> \<not> isNumericLiteral argument then Undefined
         else evalUnary ops operator arg)"
| "evaluateNode ops (BinaryExpression operator left right) =
     evalBinary ops operator (evaluateNode ops left) (evaluateNode ops right)"
| "evaluateNode ops node = Undefined"

section \<open>Discovery of constant arrays\<close>

text \<open>
  \<open>nodeToValue(node)\<close>. The result \<open>{ ok: false }\<close> is \<open>None\<close>; otherwise the pair holds
  \<open>value\<close> and the \<open>isVoid\<close> flag. A hole of an array expression is the node \<open>None\<close>.
\<close>

fun nodeToValue :: "'n number_ops \<Rightarrow> 'n node option \<Rightarrow> ('n val \<times> bool) option" where
  "nodeToValue ops None = None"
| "nodeToValue ops (Some (NumericLiteral v r)) = Some (Num v, False)"
| "nodeToValue ops (Some (StringLiteral v)) = Some (Str v, False)"
| "nodeToValue ops (Some (BooleanLiteral v)) = Some (Bool v, False)"
| "nodeToValue ops (Some NullLiteral) = Some (Null, False)"
| "nodeToValue ops (Some (UnaryExpression operator argument)) =
     (if operator = ''!'' \<and> isNumericLiteral argument
      then (case argument of NumericLiteral v r \<Rightarrow> Some (Bool (n_falsy ops v), False)
            | _ \<Rightarrow> None)
      else if operator = ''-'' \<and> isNumericLiteral argument
      then (case argument of NumericLiteral v r \<Rightarrow> Some (Num (n_neg ops v), False)
            | _ \<Rightarrow> None)
      else if operator = ''void'' then Some (Undefined, True)
      else None)"
| "nodeToValue ops (Some node) = None"

text \<open>
  \<open>valueToNode(value)\<close>; the builders \<open>t.numericLiteral\<close> and \<open>t.stringLiteral\<close> make
  nodes without \<open>extra.raw\<close>.
\<close>

fun valueToNode :: "'n number_ops \<Rightarrow> 'n val \<Rightarrow> 'n node option" where
  "valueToNode ops Null = Some NullLiteral"
| "valueToNode ops Undefined =
     Some (UnaryExpression ''void'' (NumericLiteral (n_of_nat ops 0) None))"
| "valueToNode ops (Num v) =
     (if n_lt ops v (n_of_nat ops 0)
      then Some (UnaryExpression ''-'' (NumericLiteral (n_neg ops v) None))
      else Some (NumericLiteral v None))"
| "valueToNode ops (Str v) = Some (StringLiteral v)"
| "valueToNode ops (Bool v) = Some (BooleanLiteral v)"

text \<open>
  The \<open>VariableDeclarator\<close> visitor of \<open>extractConstantArrays\<close>, on the map \<open>arrays\<close>
  collected so far. The \<open>for\<close> loop over the elements stops at the first element that
  \<open>nodeToValue\<close> rejects.
\<close>

fun parseElements :: "'n number_ops \<Rightarrow> 'n node option list \<Rightarrow> ('n val \<times> bool) list option" where
  "parseElements ops [] = Some []"
| "parseElements ops (el # els) =
     (case nodeToValue ops el of
        None \<Rightarrow> None
      | Some parsed \<Rightarrow> map_option ((#) parsed) (parseElements ops els))"

type_synonym 'n arrays = "string \<Rightarrow> ('n val \<times> bool) list option"

definition extractConstantArrays_visit ::
  "'n number_ops \<Rightarrow> 'n node \<Rightarrow> 'n arrays \<Rightarrow> 'n arrays" where
  "extractConstantArrays_visit ops node arrays =
     (case node of
        VariableDeclarator (Identifier name) (Some (ArrayExpression elements)) \<Rightarrow>
          if length elements < 10 then arrays
          else (case parseElements ops elements of
                  None \<Rightarrow> arrays
                | Some values \<Rightarrow> arrays(name \<mapsto> values))
      | _ \<Rightarrow> arrays)"

section \<open>Pass P1: inlining constant array accesses\<close>

datatype error = TypeError

text \<open>
  The \<open>MemberExpression\<close> visitor of \<open>inlineConstantArrayAccess\<close>: \<open>Inr None\<close> leaves the
  node as it is, \<open>Inr (Some r)\<close> replaces it by \<open>r\<close>. \<open>array[index]\<close> is undefined when
  \<open>index\<close> is not an index below the array's length, and then \<open>item.isVoid\<close> throws.
\<close>

definition inlineConstantArrayAccess_visit ::
  "'n number_ops \<Rightarrow> 'n arrays \<Rightarrow> 'n node \<Rightarrow> error + 'n node option" where
  "inlineConstantArrayAccess_visit ops arrays node =
     (case node of
        MemberExpression (Identifier arrayName) property computed \<Rightarrow>
          if \<not> computed then Inr None
          else (case arrays arrayName of
                  None \<Rightarrow> Inr None
                | Some array \<Rightarrow>
                    (case evaluateNode ops property of
                       Num idx \<Rightarrow>
                         if n_lt ops idx (n_of_nat ops 0)
                            \<or> n_ge ops idx (n_of_nat ops (length array))
                         then Inr None
                         else (case n_index ops idx of
                                 None \<Rightarrow> Inl TypeError
                               | Some i \<Rightarrow>
                                   if i < length array
                                   then (case array ! i of
                                           (value, isVoid) \<Rightarrow>
                                             Inr (if isVoid
                                                  then Some (UnaryExpression ''void''
                                                         (NumericLiteral (n_of_nat ops 0) None))
                                                  else valueToNode ops value))
                                   else Inl TypeError)
                     | _ \<Rightarrow> Inr None))
      | _ \<Rightarrow> Inr None)"

section \<open>An exact instance of the number operations\<close>

text \<open>
  For closed examples, numbers are rationals with exact arithmetic. This agrees with the
  doubles of JavaScript wherever the exact result is a double (integers below \<open>2^53\<close>,
  halves, and so on). The bitwise operators work on 32-bit words as in the language.
  Where a result is not rational (a fractional exponent, the text of a fraction) the
  instance leaves it unspecified.
\<close>

definition trunc :: "rat \<Rightarrow> int" where
  "trunc x = (if 0 \<le> x then \<lfloor>x\<rfloor> else \<lceil>x\<rceil>)"

definition toInt32 :: "rat \<Rightarrow> 32 word" where
  "toInt32 x = word_of_int (trunc x)"

definition int32 :: "32 word \<Rightarrow> rat" where
  "int32 x = of_int (sint x)"

definition shiftCount :: "rat \<Rightarrow> nat" where
  "shiftCount x = unat (toInt32 x) mod 32"

definition exact_arith :: "string \<Rightarrow> rat \<Rightarrow> rat \<Rightarrow> rat" where
  "exact_arith operator l r =
     (if operator = ''-'' then l - r
      else if operator = ''*'' then l * r
      else if operator = ''/'' then l / r
      else if operator = ''%'' then l - r * of_int (trunc (l / r))
      else if operator = ''**'' then
        (if r = of_int \<lfloor>r\<rfloor> \<and> 0 \<le> r then l ^ nat \<lfloor>r\<rfloor>
         else if r = of_int \<lfloor>r\<rfloor> \<and> l \<noteq> 0 then (1 / l) ^ nat (- \<lfloor>r\<rfloor>)
         else undefined)
      else if operator = ''&'' then int32 (toInt32 l AND toInt32 r)
      else if operator = ''|'' then int32 (toInt32 l OR toInt32 r)
      else if operator = ''^'' then int32 (toInt32 l XOR toInt32 r)
      else if operator = ''<<'' then int32 (push_bit (shiftCount r) (toInt32 l))
      else if operator = ''>>'' then int32 (signed_drop_bit (shiftCount r) (toInt32 l))
      else if operator = ''>>>'' then of_int (uint (drop_bit (shiftCount r) (toInt32 l)))
      else undefined)"

fun decimal :: "nat \<Rightarrow> string" where
  "decimal n = (if n < 10 then [''0123456789'' ! n]
                else decimal (n div 10) @ [''0123456789'' ! (n mod 10)])"

declare decimal.simps [simp del]

definition exact_str :: "rat \<Rightarrow> string" where
  "exact_str x =
     (if x = of_int \<lfloor>x\<rfloor>
      then (if x < 0 then ''-'' @ decimal (nat (- \<lfloor>x\<rfloor>)) else decimal (nat \<lfloor>x\<rfloor>))
      else undefined)"

definition exact_ops :: "rat number_ops" where
  "exact_ops =
     \<lparr> n_neg = uminus,
       n_bitnot = (\<lambda>x. int32 (NOT (toInt32 x))),
       n_add = (+),
       n_arith = exact_arith,
       n_falsy = (\<lambda>x. x = 0),
       n_is_zero = (\<lambda>x. x = 0),
       n_lt = (<),
       n_ge = (\<ge>),
       n_finite = (\<lambda>x. True),
       n_str = exact_str,
       n_index = (\<lambda>x. if x = of_int \<lfloor>x\<rfloor> \<and> 0 \<le> x then Some (nat \<lfloor>x\<rfloor>) else None),
       n_of_nat = of_nat \<rparr>"

lemmas eval_node = exact_ops_def evalBinary_def evalUnary_def isNumericLiteral_def exact_str_def
  decimal.simps [of "numeral k" for k] decimal.simps [of 0] decimal.simps [of "Suc 0"]

subsection \<open>Addition and concatenation\<close>

text \<open>
  C6 (as amended): on a binary expression with operator \<open>+\<close> the evaluator returns the
  concatenation, as a String, exactly when one operand evaluates to a String and the
  other to a String or a Number (the Number converted to its text); two Numbers are
  added; every other combination, such as a String and a Boolean or \<open>null\<close>, is
  "not evaluable".
\<close>

theorem evaluateNode_plus:
  "evaluateNode ops (BinaryExpression ''+'' left right) =
     (case (evaluateNode ops left, evaluateNode ops right) of
        (Str l, Str r) \<Rightarrow> Str (l @ r)
      | (Str l, Num r) \<Rightarrow> Str (l @ n_str ops r)
      | (Num l, Str r) \<Rightarrow> Str (n_str ops l @ r)
      | (Num l, Num r) \<Rightarrow> Num (n_add ops l r)
      | _ \<Rightarrow> Undefined)"
  by (simp add: evalBinary_def split: val.splits)


theorem evaluateNode_plus_witness:
  "evaluateNode exact_ops (BinaryExpression ''+'' (NumericLiteral 12 None) (StringLiteral ''px''))
     = Str ''12px''
   \<and> evaluateNode exact_ops (BinaryExpression ''+'' (StringLiteral ''a'') (StringLiteral ''b''))
     = Str ''ab''
   \<and> evaluateNode exact_ops (BinaryExpression ''+'' (StringLiteral ''a'') NullLiteral)
     = Undefined"
  using evaluateNode_plus [of exact_ops "NumericLiteral 12 None" "StringLiteral ''px''"]
    evaluateNode_plus [of exact_ops "StringLiteral ''a''" "StringLiteral ''b''"]
    evaluateNode_plus [of exact_ops "StringLiteral ''a''" NullLiteral]
  by (simp add: eval_node)

text \<open>
  Both operands of \<open>"a" + true\<close> evaluate to literal values and one is a String, yet the
  evaluator answers "not evaluable".
\<close>

theorem evaluateNode_plus_boolean_counterexample:
  "evaluateNode exact_ops (StringLiteral ''a'') = Str ''a''
   \<and> evaluateNode exact_ops (BooleanLiteral True) = Bool True
   \<and> evaluateNode exact_ops
        (BinaryExpression ''+'' (StringLiteral ''a'') (BooleanLiteral True)) = Undefined"
  by (simp add: eval_node)

subsection \<open>The declarator visitor of extractConstantArrays\<close>

lemma parseElements_Some:
  "parseElements ops els = Some vs \<longleftrightarrow>
     (\<forall>el \<in> set els. nodeToValue ops el \<noteq> None) \<and> vs = map (the \<circ> nodeToValue ops) els"
  by (induction els arbitrary: vs) (auto split: option.splits)

lemma parseElements_None:
  "parseElements ops els = None \<longleftrightarrow> (\<exists>el \<in> set els. nodeToValue ops el = None)"
  by (induction els) (auto split: option.splits)

lemma extractConstantArrays_visit_records:
  "extractConstantArrays_visit ops
     (VariableDeclarator (Identifier name) (Some (ArrayExpression elements))) arrays =
   (if 10 \<le> length elements \<and> (\<forall>el \<in> set elements. nodeToValue ops el \<noteq> None)
    then arrays(name \<mapsto> map (the \<circ> nodeToValue ops) elements)
    else arrays)"
proof (cases "parseElements ops elements")
  case None
  then show ?thesis
    using parseElements_None [of ops elements]
    by (auto simp: extractConstantArrays_visit_def)
next
  case (Some vs)
  then show ?thesis
    using parseElements_Some [of ops elements vs]
    by (auto simp: extractConstantArrays_visit_def)
qed

section \<open>Tree traversal\<close>

text \<open>
  A pass walks the tree with an \<open>enter\<close> and an \<open>exit\<close> visitor; a visitor leaves the node
  (\<open>Inr None\<close>), replaces it (\<open>Inr (Some r)\<close>) or throws. The walk returns the new tree and
  the number of replacements (each pass does \<open>count++\<close> next to \<open>path.replaceWith\<close>).
  The children of a node are visited in the order of the parser's visitor keys. A
  replacement is not walked again here: the passes P1 to P4 replace a node by a literal,
  \<open>void 0\<close>, \<open>-n\<close> or an identifier, in which their visitors match nothing.
\<close>

type_synonym ('a) walk = "error + ('a \<times> nat)"

definition wreturn :: "'a \<Rightarrow> 'a walk" where
  "wreturn a = Inr (a, 0)"

definition wbind :: "'a walk \<Rightarrow> ('a \<Rightarrow> 'b walk) \<Rightarrow> 'b walk" where
  "wbind m k = (case m of
                  Inl e \<Rightarrow> Inl e
                | Inr (a, c) \<Rightarrow> (case k a of Inl e \<Rightarrow> Inl e | Inr (b, c') \<Rightarrow> Inr (b, c + c')))"

type_synonym 'n visitor = "'n node \<Rightarrow> error + 'n node option"

definition noVisitor :: "'n visitor" where
  "noVisitor node = Inr None"

fun traverse :: "'n visitor \<Rightarrow> 'n visitor \<Rightarrow> 'n node \<Rightarrow> 'n node walk"
  and traverseChildren :: "'n visitor \<Rightarrow> 'n visitor \<Rightarrow> 'n node \<Rightarrow> 'n node walk"
  and traverseList :: "'n visitor \<Rightarrow> 'n visitor \<Rightarrow> 'n node list \<Rightarrow> 'n node list walk"
  and traverseOpt :: "'n visitor \<Rightarrow> 'n visitor \<Rightarrow> 'n node option \<Rightarrow> 'n node option walk"
  and traverseOptList :: "'n visitor \<Rightarrow> 'n visitor \<Rightarrow> 'n node option list \<Rightarrow> 'n node option list walk"
where
  "traverse en ex node =
     (case en node of
        Inl e \<Rightarrow> Inl e
      | Inr (Some r) \<Rightarrow> Inr (r, 1)
      | Inr None \<Rightarrow>
          (case traverseChildren en ex node of
             Inl e \<Rightarrow> Inl e
           | Inr (node', c) \<Rightarrow>
               (case ex node' of
                  Inl e \<Rightarrow> Inl e
                | Inr (Some r) \<Rightarrow> Inr (r, c + 1)
                | Inr None \<Rightarrow> Inr (node', c))))"
| "traverseChildren en ex (UnaryExpression operator argument) =
     wbind (traverse en ex argument) (\<lambda>a. wreturn (UnaryExpression operator a))"
| "traverseChildren en ex (BinaryExpression operator left right) =
     wbind (traverse en ex left) (\<lambda>l.
     wbind (traverse en ex right) (\<lambda>r. wreturn (BinaryExpression operator l r)))"
| "traverseChildren en ex (LogicalExpression operator left right) =
     wbind (traverse en ex left) (\<lambda>l.
     wbind (traverse en ex right) (\<lambda>r. wreturn (LogicalExpression operator l r)))"
| "traverseChildren en ex (ConditionalExpression test consequent alternate) =
     wbind (traverse en ex test) (\<lambda>t.
     wbind (traverse en ex consequent) (\<lambda>c.
     wbind (traverse en ex alternate) (\<lambda>a. wreturn (ConditionalExpression t c a))))"
| "traverseChildren en ex (SequenceExpression expressions) =
     wbind (traverseList en ex expressions) (\<lambda>es. wreturn (SequenceExpression es))"
| "traverseChildren en ex (MemberExpression object property computed) =
     wbind (traverse en ex object) (\<lambda>ob.
     wbind (traverse en ex property) (\<lambda>p. wreturn (MemberExpression ob p computed)))"
| "traverseChildren en ex (CallExpression callee arguments) =
     wbind (traverse en ex callee) (\<lambda>c.
     wbind (traverseList en ex arguments) (\<lambda>as. wreturn (CallExpression c as)))"
| "traverseChildren en ex (AssignmentExpression operator left right) =
     wbind (traverse en ex left) (\<lambda>l.
     wbind (traverse en ex right) (\<lambda>r. wreturn (AssignmentExpression operator l r)))"
| "traverseChildren en ex (ArrayExpression elements) =
     wbind (traverseOptList en ex elements) (\<lambda>es. wreturn (ArrayExpression es))"
| "traverseChildren en ex (FunctionExpression ident params body) =
     wbind (traverseOpt en ex ident) (\<lambda>i.
     wbind (traverseList en ex params) (\<lambda>ps.
     wbind (traverse en ex body) (\<lambda>b. wreturn (FunctionExpression i ps b))))"
| "traverseChildren en ex (ExpressionStatement expression) =
     wbind (traverse en ex expression) (\<lambda>e. wreturn (ExpressionStatement e))"
| "traverseChildren en ex (VariableDeclaration kind declarations) =
     wbind (traverseList en ex declarations) (\<lambda>ds. wreturn (VariableDeclaration kind ds))"
| "traverseChildren en ex (VariableDeclarator ident init) =
     wbind (traverse en ex ident) (\<lambda>i.
     wbind (traverseOpt en ex init) (\<lambda>v. wreturn (VariableDeclarator i v)))"
| "traverseChildren en ex (ReturnStatement argument) =
     wbind (traverseOpt en ex argument) (\<lambda>a. wreturn (ReturnStatement a))"
| "traverseChildren en ex (IfStatement test consequent alternate) =
     wbind (traverse en ex test) (\<lambda>t.
     wbind (traverse en ex consequent) (\<lambda>c.
     wbind (traverseOpt en ex alternate) (\<lambda>a. wreturn (IfStatement t c a))))"
| "traverseChildren en ex (BlockStatement body) =
     wbind (traverseList en ex body) (\<lambda>b. wreturn (BlockStatement b))"
| "traverseChildren en ex (SwitchStatement discriminant cases) =
     wbind (traverse en ex discriminant) (\<lambda>d.
     wbind (traverseList en ex cases) (\<lambda>cs. wreturn (SwitchStatement d cs)))"
| "traverseChildren en ex (SwitchCase test consequent) =
     wbind (traverseOpt en ex test) (\<lambda>t.
     wbind (traverseList en ex consequent) (\<lambda>c. wreturn (SwitchCase t c)))"
| "traverseChildren en ex (FunctionDeclaration ident params body) =
     wbind (traverseOpt en ex ident) (\<lambda>i.
     wbind (traverseList en ex params) (\<lambda>ps.
     wbind (traverse en ex body) (\<lambda>b. wreturn (FunctionDeclaration i ps b))))"
| "traverseChildren en ex (Program body) =
     wbind (traverseList en ex body) (\<lambda>b. wreturn (Program b))"
| "traverseChildren en ex node = wreturn node"
| "traverseList en ex [] = wreturn []"
| "traverseList en ex (x # xs) =
     wbind (traverse en ex x) (\<lambda>y.
     wbind (traverseList en ex xs) (\<lambda>ys. wreturn (y # ys)))"
| "traverseOpt en ex None = wreturn None"
| "traverseOpt en ex (Some x) = wbind (traverse en ex x) (\<lambda>y. wreturn (Some y))"
| "traverseOptList en ex [] = wreturn []"
| "traverseOptList en ex (x # xs) =
     wbind (traverseOpt en ex x) (\<lambda>y.
     wbind (traverseOptList en ex xs) (\<lambda>ys. wreturn (y # ys)))"

declare traverse.simps(1) [simp del]

section \<open>Read-only walks\<close>

text \<open>
  The discovery functions walk the tree without changing it. \<open>allNodes\<close> lists the nodes
  in the order in which such a walk enters them.
\<close>

definition optl :: "'a option \<Rightarrow> 'a list" where
  "optl x = (case x of None \<Rightarrow> [] | Some y \<Rightarrow> [y])"

fun children :: "'n node \<Rightarrow> 'n node list" where
  "children (UnaryExpression operator argument) = [argument]"
| "children (BinaryExpression operator left right) = [left, right]"
| "children (LogicalExpression operator left right) = [left, right]"
| "children (ConditionalExpression test consequent alternate) = [test, consequent, alternate]"
| "children (SequenceExpression expressions) = expressions"
| "children (MemberExpression object property computed) = [object, property]"
| "children (CallExpression callee arguments) = callee # arguments"
| "children (AssignmentExpression operator left right) = [left, right]"
| "children (ArrayExpression elements) = concat (map optl elements)"
| "children (FunctionExpression ident params body) = optl ident @ params @ [body]"
| "children (ExpressionStatement expression) = [expression]"
| "children (VariableDeclaration kind declarations) = declarations"
| "children (VariableDeclarator ident init) = ident # optl init"
| "children (ReturnStatement argument) = optl argument"
| "children (IfStatement test consequent alternate) = test # consequent # optl alternate"
| "children (BlockStatement body) = body"
| "children (SwitchStatement discriminant cases) = discriminant # cases"
| "children (SwitchCase test consequent) = optl test @ consequent"
| "children (FunctionDeclaration ident params body) = optl ident @ params @ [body]"
| "children (Program body) = body"
| "children node = []"

lemma size_list_mem: "x \<in> set xs \<Longrightarrow> f x < Suc (size_list f xs)"
  by (induction xs) auto

lemma size_optlist_mem:
  "Some x \<in> set xs \<Longrightarrow> size x < Suc (size_list (size_option size) xs)"
  by (induction xs) auto

lemma children_size: "c \<in> set (children node) \<Longrightarrow> size c < size node"
  by (cases node)
     (auto simp: optl_def split: option.splits dest: size_list_mem [where f = size] size_optlist_mem)

function allNodes :: "'n node \<Rightarrow> 'n node list" where
  "allNodes node = node # concat (map allNodes (children node))"
  by pat_completeness auto
termination
  by (relation "measure size") (auto dest: children_size)

declare allNodes.simps [simp del]


text \<open>\<open>extractConstantArrays(ast)\<close>: the declarator visitor applied along the walk, starting
  from the empty map.\<close>

definition extractConstantArrays :: "'n number_ops \<Rightarrow> 'n node \<Rightarrow> 'n arrays" where
  "extractConstantArrays ops ast = fold (extractConstantArrays_visit ops) (allNodes ast) Map.empty"

text \<open>
  What the visitor records for a node, if anything: the name and the parsed elements of a
  declarator \<open>name = [e1, ..., en]\<close> with \<open>n \<ge> 10\<close> whose elements \<open>nodeToValue\<close> all accepts.
\<close>

definition qualifies :: "'n number_ops \<Rightarrow> 'n node \<Rightarrow> (string \<times> ('n val \<times> bool) list) option" where
  "qualifies ops node =
     (case node of
        VariableDeclarator (Identifier name) (Some (ArrayExpression elements)) \<Rightarrow>
          if 10 \<le> length elements \<and> list_all (\<lambda>el. nodeToValue ops el \<noteq> None) elements
          then Some (name, map (the \<circ> nodeToValue ops) elements)
          else None
      | _ \<Rightarrow> None)"

text \<open>An element is evaluable by the literal evaluator when \<open>evaluateNode\<close> does not answer
  \<open>undefined\<close>; a hole is not.\<close>

definition evaluable :: "'n number_ops \<Rightarrow> 'n node option \<Rightarrow> bool" where
  "evaluable ops el = (case el of None \<Rightarrow> False | Some node \<Rightarrow> evaluateNode ops node \<noteq> Undefined)"

lemma visit_qualifies:
  "extractConstantArrays_visit ops node arrays =
     (case qualifies ops node of None \<Rightarrow> arrays | Some (name, values) \<Rightarrow> arrays(name \<mapsto> values))"
proof (cases "\<exists>name elements.
                node = VariableDeclarator (Identifier name) (Some (ArrayExpression elements))")
  case True
  then obtain name elements
    where n: "node = VariableDeclarator (Identifier name) (Some (ArrayExpression elements))"
    by blast
  show ?thesis
    unfolding n extractConstantArrays_visit_records
    by (auto simp: qualifies_def list_all_iff)
next
  case False
  then have "qualifies ops node = None" "extractConstantArrays_visit ops node arrays = arrays"
    by (auto simp: qualifies_def extractConstantArrays_visit_def split: node.splits option.splits)
  then show ?thesis by simp
qed

lemma fold_visit_recorded:
  "node \<in> set ns \<Longrightarrow> qualifies ops node = Some (name, values) \<Longrightarrow>
     fold (extractConstantArrays_visit ops) ns arrays name \<noteq> None"
proof (induction ns arbitrary: arrays rule: rev_induct)
  case Nil
  then show ?case by simp
next
  case (snoc x xs)
  show ?case
  proof (cases "node = x")
    case True
    with snoc.prems show ?thesis by (simp add: visit_qualifies [of ops x])
  next
    case False
    with snoc.prems have "node \<in> set xs" by simp
    from snoc.IH [OF this snoc.prems(2)] show ?thesis
      by (simp add: visit_qualifies [of ops x] split: option.splits)
  qed
qed

lemma fold_visit_source:
  "fold (extractConstantArrays_visit ops) ns arrays name = Some vs \<Longrightarrow>
     arrays name = Some vs \<or> (\<exists>node \<in> set ns. qualifies ops node = Some (name, vs))"
proof (induction ns arbitrary: vs rule: rev_induct)
  case Nil
  then show ?case by simp
next
  case (snoc x xs)
  show ?case
  proof (cases "qualifies ops x")
    case None
    with snoc.prems have "fold (extractConstantArrays_visit ops) xs arrays name = Some vs"
      by (simp add: visit_qualifies [of ops x])
    from snoc.IH [OF this] show ?thesis by auto
  next
    case (Some p)
    obtain n v where nv: "p = (n, v)" by (cases p)
    show ?thesis
    proof (cases "n = name")
      case True
      with Some nv snoc.prems have "v = vs" by (simp add: visit_qualifies [of ops x])
      with Some nv True show ?thesis by auto
    next
      case False
      with Some nv snoc.prems
      have "fold (extractConstantArrays_visit ops) xs arrays name = Some vs"
        by (simp add: visit_qualifies [of ops x])
      from snoc.IH [OF this] show ?thesis by auto
    qed
  qed
qed

text \<open>
  C5 (as amended): a declarator \<open>name = [...]\<close> with an identifier on the left, at least 10
  elements and every element accepted by \<open>nodeToValue\<close> (a numeric, string, boolean or
  null literal, \<open>!\<close> or \<open>-\<close> applied to a numeric literal, or a \<open>void\<close> expression) makes
  discovery record an array under \<open>name\<close>; and every recorded array comes from such a
  declarator, so that shorter arrays and arrays with any other element (a hole included)
  are skipped.
\<close>

theorem extractConstantArrays_records:
  "(VariableDeclarator (Identifier name) (Some (ArrayExpression elements)) \<in> set (allNodes ast)
      \<and> 10 \<le> length elements \<and> (\<forall>el \<in> set elements. nodeToValue ops el \<noteq> None)
    \<longrightarrow> extractConstantArrays ops ast name \<noteq> None)
   \<and> (extractConstantArrays ops ast name = Some values
    \<longrightarrow> (\<exists>elements.
           VariableDeclarator (Identifier name) (Some (ArrayExpression elements)) \<in> set (allNodes ast)
           \<and> 10 \<le> length elements \<and> (\<forall>el \<in> set elements. nodeToValue ops el \<noteq> None)
           \<and> values = map (the \<circ> nodeToValue ops) elements))"
proof (intro conjI impI)
  assume a: "VariableDeclarator (Identifier name) (Some (ArrayExpression elements)) \<in> set (allNodes ast)
      \<and> 10 \<le> length elements \<and> (\<forall>el \<in> set elements. nodeToValue ops el \<noteq> None)"
  then have "qualifies ops (VariableDeclarator (Identifier name) (Some (ArrayExpression elements)))
               = Some (name, map (the \<circ> nodeToValue ops) elements)"
    by (simp add: qualifies_def list_all_iff)
  with a show "extractConstantArrays ops ast name \<noteq> None"
    unfolding extractConstantArrays_def by (intro fold_visit_recorded) auto
next
  assume "extractConstantArrays ops ast name = Some values"
  from fold_visit_source [OF this [unfolded extractConstantArrays_def]]
  obtain node where n: "node \<in> set (allNodes ast)" and q: "qualifies ops node = Some (name, values)"
    by auto
  from q obtain elements
    where "node = VariableDeclarator (Identifier name) (Some (ArrayExpression elements))"
      and "10 \<le> length elements" and "list_all (\<lambda>el. nodeToValue ops el \<noteq> None) elements"
      and "values = map (the \<circ> nodeToValue ops) elements"
    by (auto simp: qualifies_def split: node.splits option.splits if_splits)
  with n show "\<exists>elements.
           VariableDeclarator (Identifier name) (Some (ArrayExpression elements)) \<in> set (allNodes ast)
           \<and> 10 \<le> length elements \<and> (\<forall>el \<in> set elements. nodeToValue ops el \<noteq> None)
           \<and> values = map (the \<circ> nodeToValue ops) elements"
    by (auto simp: list_all_iff)
qed

section \<open>The passes P1 to P4\<close>

lemma floor_half: "\<lfloor>1 / 2 :: rat\<rfloor> = 0"
  by (simp add: floor_eq_iff)

definition inlineConstantArrayAccess ::
  "'n number_ops \<Rightarrow> 'n node \<Rightarrow> 'n arrays \<Rightarrow> 'n node walk" where
  "inlineConstantArrayAccess ops ast arrays =
     traverse (inlineConstantArrayAccess_visit ops arrays) noVisitor ast"

text \<open>Programs for closed examples: \<open>var A = [k1, ..., kn];\<close>\<close>

definition literals :: "rat list \<Rightarrow> rat node option list" where
  "literals ks = map (\<lambda>k. Some (NumericLiteral k None)) ks"

definition declareA :: "rat node option list \<Rightarrow> rat node" where
  "declareA elements =
     VariableDeclaration ''var''
       [VariableDeclarator (Identifier ''A'') (Some (ArrayExpression elements))]"

lemmas eval_tree = allNodes.simps optl_def literals_def declareA_def extractConstantArrays_def
  extractConstantArrays_visit_def evaluable_def traverse.simps(1) wbind_def wreturn_def
  noVisitor_def

theorem extractConstantArrays_records_witness:
  "extractConstantArrays exact_ops
     (Program [declareA (literals [0, 1, 2, 3, 4, 5, 6, 7, 8, 9])]) ''A'' \<noteq> None
   \<and> extractConstantArrays exact_ops
     (Program [declareA (literals [0, 1, 2, 3, 4, 5, 6, 7, 8])]) ''A'' = None"
proof -
  have a: "extractConstantArrays exact_ops
     (Program [declareA (literals [0, 1, 2, 3, 4, 5, 6, 7, 8, 9])]) ''A'' \<noteq> None"
    using extractConstantArrays_records [of "''A''" "literals [0, 1, 2, 3, 4, 5, 6, 7, 8, 9]"
        "Program [declareA (literals [0, 1, 2, 3, 4, 5, 6, 7, 8, 9])]" exact_ops]
    by (auto simp: allNodes.simps optl_def literals_def declareA_def)
  have b: "extractConstantArrays exact_ops
     (Program [declareA (literals [0, 1, 2, 3, 4, 5, 6, 7, 8])]) ''A'' = None"
  proof (cases "extractConstantArrays exact_ops
     (Program [declareA (literals [0, 1, 2, 3, 4, 5, 6, 7, 8])]) ''A''")
    case None
    then show ?thesis .
  next
    case (Some vs)
    with extractConstantArrays_records [of "''A''" _
        "Program [declareA (literals [0, 1, 2, 3, 4, 5, 6, 7, 8])]" exact_ops vs]
    show ?thesis
      by (auto simp: allNodes.simps optl_def literals_def declareA_def)
  qed
  from a b show ?thesis ..
qed

text \<open>
  In \<open>var A = [0, 1, 2, 3, 4, 5, 6, 7, 8, 1 + 2];\<close> every element is evaluable by the
  literal evaluator and there are 10 of them, yet discovery records nothing for \<open>A\<close>:
  \<open>nodeToValue\<close> does not accept the binary expression.
\<close>

theorem extractConstantArrays_evaluable_counterexample:
  "length (literals [0, 1, 2, 3, 4, 5, 6, 7, 8]
            @ [Some (BinaryExpression ''+'' (NumericLiteral 1 None) (NumericLiteral 2 None))]) = 10
   \<and> list_all (evaluable exact_ops)
        (literals [0, 1, 2, 3, 4, 5, 6, 7, 8]
          @ [Some (BinaryExpression ''+'' (NumericLiteral 1 None) (NumericLiteral 2 None))])
   \<and> extractConstantArrays exact_ops
        (Program [declareA (literals [0, 1, 2, 3, 4, 5, 6, 7, 8]
          @ [Some (BinaryExpression ''+'' (NumericLiteral 1 None) (NumericLiteral 2 None))])])
        ''A'' = None"
  by (simp add: eval_tree eval_node)

text \<open>
  C1: on \<open>var A = [0, 1, 2, 3, 4, 5, 6, 7, 8, 9]; A[0.5];\<close> the index evaluates to a number
  that passes the range test \<open>index < 0 || index >= array.length\<close>; \<open>array[0.5]\<close> is
  undefined and \<open>item.isVoid\<close> throws, so the pass P1 does not leave the node unchanged.
\<close>

theorem inlineConstantArrayAccess_fraction_throws:
  "inlineConstantArrayAccess exact_ops
     (Program [declareA (literals [0, 1, 2, 3, 4, 5, 6, 7, 8, 9]),
               ExpressionStatement
                 (MemberExpression (Identifier ''A'') (NumericLiteral (1 / 2) None) True)])
     (extractConstantArrays exact_ops
        (Program [declareA (literals [0, 1, 2, 3, 4, 5, 6, 7, 8, 9]),
               ExpressionStatement
                 (MemberExpression (Identifier ''A'') (NumericLiteral (1 / 2) None) True)]))
   = Inl TypeError"
  by (simp add: inlineConstantArrayAccess_def inlineConstantArrayAccess_visit_def eval_tree
        eval_node floor_half)

section \<open>Properties that a walk preserves\<close>

text \<open>
  \<open>wresult E m P\<close>: the walk \<open>m\<close> ends with a tree satisfying \<open>P\<close>, or throws and \<open>E\<close>
  holds; with \<open>E = False\<close> the walk does not throw.
\<close>

definition wresult :: "bool \<Rightarrow> 'a walk \<Rightarrow> ('a \<Rightarrow> bool) \<Rightarrow> bool" where
  "wresult E m P = (case m of Inl e \<Rightarrow> E | Inr (a, c) \<Rightarrow> P a)"

lemma wresult_return [simp]: "wresult E (wreturn a) P = P a"
  by (simp add: wresult_def wreturn_def)

lemma wresult_bind:
  assumes "wresult E m P" and "\<And>a. P a \<Longrightarrow> wresult E (k a) Q"
  shows "wresult E (wbind m k) Q"
proof (cases m)
  case (Inl e)
  with assms(1) show ?thesis by (simp add: wresult_def wbind_def)
next
  case (Inr p)
  obtain a c where p: "p = (a, c)" by (cases p)
  with Inr assms(1) have "P a" by (simp add: wresult_def)
  from assms(2) [OF this] Inr p show ?thesis
    by (auto simp: wresult_def wbind_def split: sum.splits)
qed

text \<open>A predicate on nodes holds throughout a tree.\<close>

definition allN :: "('n node \<Rightarrow> bool) \<Rightarrow> 'n node \<Rightarrow> bool" where
  "allN P node = (\<forall>x \<in> set (allNodes node). P x)"

lemma allN_unfold: "allN P node \<longleftrightarrow> P node \<and> (\<forall>c \<in> set (children node). allN P c)"
  by (subst allN_def, subst allNodes.simps) (auto simp: allN_def)

text \<open>The nodes without children.\<close>

definition atom :: "'n node \<Rightarrow> bool" where
  "atom node = (case node of
       NumericLiteral v r \<Rightarrow> True | StringLiteral v \<Rightarrow> True | BooleanLiteral v \<Rightarrow> True
     | NullLiteral \<Rightarrow> True | Identifier v \<Rightarrow> True | EmptyStatement \<Rightarrow> True | _ \<Rightarrow> False)"

lemma traverseList_pres:
  assumes "\<And>x. x \<in> set xs \<Longrightarrow> allN P x \<Longrightarrow> wresult E (traverse en ex x) (allN P)"
    and "\<forall>x \<in> set xs. allN P x"
  shows "wresult E (traverseList en ex xs) (\<lambda>ys. \<forall>y \<in> set ys. allN P y)"
  using assms
proof (induction xs)
  case Nil
  then show ?case by simp
next
  case (Cons x xs)
  show ?case
    unfolding traverseList.simps
  proof (rule wresult_bind [where P = "allN P"])
    show "wresult E (traverse en ex x) (allN P)" using Cons.prems by simp
  next
    fix y assume y: "allN P y"
    show "wresult E (wbind (traverseList en ex xs) (\<lambda>ys. wreturn (y # ys)))
           (\<lambda>ys. \<forall>y \<in> set ys. allN P y)"
    proof (rule wresult_bind [where P = "\<lambda>ys. \<forall>y \<in> set ys. allN P y"])
      show "wresult E (traverseList en ex xs) (\<lambda>ys. \<forall>y \<in> set ys. allN P y)"
        using Cons.IH Cons.prems by simp
    qed (simp add: y)
  qed
qed

lemma traverseOpt_pres:
  assumes "\<And>x. x \<in> set_option xo \<Longrightarrow> allN P x \<Longrightarrow> wresult E (traverse en ex x) (allN P)"
    and "\<forall>x \<in> set_option xo. allN P x"
  shows "wresult E (traverseOpt en ex xo) (\<lambda>yo. \<forall>y \<in> set_option yo. allN P y)"
proof (cases xo)
  case None
  then show ?thesis by simp
next
  case (Some x)
  with assms have "wresult E (traverse en ex x) (allN P)" by simp
  then show ?thesis
    unfolding Some traverseOpt.simps
    by (rule wresult_bind) simp
qed

lemma traverseOptList_pres:
  assumes "\<And>xo x. xo \<in> set xs \<Longrightarrow> x \<in> set_option xo \<Longrightarrow> allN P x
             \<Longrightarrow> wresult E (traverse en ex x) (allN P)"
    and "\<forall>xo \<in> set xs. \<forall>x \<in> set_option xo. allN P x"
  shows "wresult E (traverseOptList en ex xs) (\<lambda>ys. \<forall>yo \<in> set ys. \<forall>y \<in> set_option yo. allN P y)"
  using assms
proof (induction xs)
  case Nil
  then show ?case by simp
next
  case (Cons xo xs)
  show ?case
    unfolding traverseOptList.simps
  proof (rule wresult_bind [where P = "\<lambda>yo. \<forall>y \<in> set_option yo. allN P y"])
    show "wresult E (traverseOpt en ex xo) (\<lambda>yo. \<forall>y \<in> set_option yo. allN P y)"
      using Cons.prems by (intro traverseOpt_pres) auto
  next
    fix yo assume y: "\<forall>y \<in> set_option yo. allN P y"
    show "wresult E (wbind (traverseOptList en ex xs) (\<lambda>ys. wreturn (yo # ys)))
           (\<lambda>ys. \<forall>yo \<in> set ys. \<forall>y \<in> set_option yo. allN P y)"
    proof (rule wresult_bind
             [where P = "\<lambda>ys. \<forall>yo \<in> set ys. \<forall>y \<in> set_option yo. allN P y"])
      show "wresult E (traverseOptList en ex xs)
              (\<lambda>ys. \<forall>yo \<in> set ys. \<forall>y \<in> set_option yo. allN P y)"
        using Cons.IH Cons.prems by simp
    qed (simp add: y)
  qed
qed

lemmas allN_simps =
  allN_unfold [of _ "NumericLiteral a b" for a b]
  allN_unfold [of _ "StringLiteral a" for a]
  allN_unfold [of _ "BooleanLiteral a" for a]
  allN_unfold [of _ NullLiteral]
  allN_unfold [of _ "Identifier a" for a]
  allN_unfold [of _ "UnaryExpression a b" for a b]
  allN_unfold [of _ "BinaryExpression a b c" for a b c]
  allN_unfold [of _ "LogicalExpression a b c" for a b c]
  allN_unfold [of _ "ConditionalExpression a b c" for a b c]
  allN_unfold [of _ "SequenceExpression a" for a]
  allN_unfold [of _ "MemberExpression a b c" for a b c]
  allN_unfold [of _ "CallExpression a b" for a b]
  allN_unfold [of _ "AssignmentExpression a b c" for a b c]
  allN_unfold [of _ "ArrayExpression a" for a]
  allN_unfold [of _ "FunctionExpression a b c" for a b c]
  allN_unfold [of _ "ExpressionStatement a" for a]
  allN_unfold [of _ "VariableDeclaration a b" for a b]
  allN_unfold [of _ "VariableDeclarator a b" for a b]
  allN_unfold [of _ "ReturnStatement a" for a]
  allN_unfold [of _ "IfStatement a b c" for a b c]
  allN_unfold [of _ "BlockStatement a" for a]
  allN_unfold [of _ EmptyStatement]
  allN_unfold [of _ "SwitchStatement a b" for a b]
  allN_unfold [of _ "SwitchCase a b" for a b]
  allN_unfold [of _ "FunctionDeclaration a b c" for a b c]
  allN_unfold [of _ "Program a" for a]

text \<open>A visitor keeps \<open>P\<close>: what it puts in place of a node satisfies \<open>P\<close> throughout.\<close>

definition visit_ok :: "bool \<Rightarrow> ('n node \<Rightarrow> bool) \<Rightarrow> 'n visitor \<Rightarrow> 'n node \<Rightarrow> bool" where
  "visit_ok E P v n =
     (case v n of Inl e \<Rightarrow> E | Inr None \<Rightarrow> True | Inr (Some r) \<Rightarrow> allN P r)"

lemma traverse_visit:
  assumes "wresult E (traverseChildren en ex n) (allN P)"
    and "visit_ok E P en n"
    and "\<And>n'. allN P n' \<Longrightarrow> visit_ok E P ex n'"
  shows "wresult E (traverse en ex n) (allN P)"
proof (cases "en n")
  case (Inl e)
  with assms(2) show ?thesis
    by (simp add: traverse.simps(1) wresult_def visit_ok_def)
next
  case (Inr ro)
  show ?thesis
  proof (cases ro)
    case (Some r)
    with Inr assms(2) show ?thesis
      by (simp add: traverse.simps(1) wresult_def visit_ok_def)
  next
    case None
    show ?thesis
    proof (cases "traverseChildren en ex n")
      case (Inl e)
      with None Inr assms(1) show ?thesis
        by (simp add: traverse.simps(1) wresult_def)
    next
      case (Inr p)
      obtain n' c where p: "p = (n', c)" by (cases p)
      with Inr assms(1) have "allN P n'" by (simp add: wresult_def)
      from assms(3) [OF this] this None \<open>en n = Inr ro\<close> Inr p show ?thesis
        by (auto simp: traverse.simps(1) wresult_def visit_ok_def split: sum.splits option.splits)
    qed
  qed
qed

lemma traverse_pres:
  assumes interior: "\<And>n. \<not> atom n \<Longrightarrow> P n"
    and en_ok: "\<And>n. allN P n \<Longrightarrow> visit_ok E P en n"
    and ex_ok: "\<And>n. allN P n \<Longrightarrow> visit_ok E P ex n"
  shows "allN P n \<Longrightarrow> wresult E (traverse en ex n) (allN P)"
proof (induction n)
  case (NumericLiteral x1 x2)
  show ?case
    by (rule traverse_visit [OF _ en_ok [OF NumericLiteral.prems] ex_ok]) (use NumericLiteral.prems in simp_all)
next
  case (StringLiteral x1)
  show ?case
    by (rule traverse_visit [OF _ en_ok [OF StringLiteral.prems] ex_ok]) (use StringLiteral.prems in simp_all)
next
  case (BooleanLiteral x1)
  show ?case
    by (rule traverse_visit [OF _ en_ok [OF BooleanLiteral.prems] ex_ok]) (use BooleanLiteral.prems in simp_all)
next
  case NullLiteral
  show ?case
    by (rule traverse_visit [OF _ en_ok [OF NullLiteral.prems] ex_ok]) (use NullLiteral.prems in simp_all)
next
  case (Identifier x1)
  show ?case
    by (rule traverse_visit [OF _ en_ok [OF Identifier.prems] ex_ok]) (use Identifier.prems in simp_all)
next
  case (UnaryExpression x1 x2)
  show ?case
  proof (rule traverse_visit [OF _ en_ok [OF UnaryExpression.prems] ex_ok])
    show "wresult E (traverseChildren en ex (UnaryExpression x1 x2)) (allN P)"
      unfolding traverseChildren.simps
      apply (rule wresult_bind [where P = "allN P"])
      subgoal using UnaryExpression by (simp add: allN_simps optl_def split: option.splits)
      apply (auto simp: allN_simps atom_def interior optl_def split: option.splits)
      done
  qed
next
  case (BinaryExpression x1 x2 x3)
  show ?case
  proof (rule traverse_visit [OF _ en_ok [OF BinaryExpression.prems] ex_ok])
    show "wresult E (traverseChildren en ex (BinaryExpression x1 x2 x3)) (allN P)"
      unfolding traverseChildren.simps
      apply (rule wresult_bind [where P = "allN P"])
      subgoal using BinaryExpression by (simp add: allN_simps optl_def split: option.splits)
      apply (rule wresult_bind [where P = "allN P"])
      subgoal using BinaryExpression by (simp add: allN_simps optl_def split: option.splits)
      apply (auto simp: allN_simps atom_def interior optl_def split: option.splits)
      done
  qed
next
  case (LogicalExpression x1 x2 x3)
  show ?case
  proof (rule traverse_visit [OF _ en_ok [OF LogicalExpression.prems] ex_ok])
    show "wresult E (traverseChildren en ex (LogicalExpression x1 x2 x3)) (allN P)"
      unfolding traverseChildren.simps
      apply (rule wresult_bind [where P = "allN P"])
      subgoal using LogicalExpression by (simp add: allN_simps optl_def split: option.splits)
      apply (rule wresult_bind [where P = "allN P"])
      subgoal using LogicalExpression by (simp add: allN_simps optl_def split: option.splits)
      apply (auto simp: allN_simps atom_def interior optl_def split: option.splits)
      done
  qed
next
  case (ConditionalExpression x1 x2 x3)
  show ?case
  proof (rule traverse_visit [OF _ en_ok [OF ConditionalExpression.prems] ex_ok])
    show "wresult E (traverseChildren en ex (ConditionalExpression x1 x2 x3)) (allN P)"
      unfolding traverseChildren.simps
      apply (rule wresult_bind [where P = "allN P"])
      subgoal using ConditionalExpression by (simp add: allN_simps optl_def split: option.splits)
      apply (rule wresult_bind [where P = "allN P"])
      subgoal using ConditionalExpression by (simp add: allN_simps optl_def split: option.splits)
      apply (rule wresult_bind [where P = "allN P"])
      subgoal using ConditionalExpression by (simp add: allN_simps optl_def split: option.splits)
      apply (auto simp: allN_simps atom_def interior optl_def split: option.splits)
      done
  qed
next
  case (SequenceExpression x1)
  show ?case
  proof (rule traverse_visit [OF _ en_ok [OF SequenceExpression.prems] ex_ok])
    show "wresult E (traverseChildren en ex (SequenceExpression x1)) (allN P)"
      unfolding traverseChildren.simps
      apply (rule wresult_bind [where P = "\<lambda>ys. \<forall>y \<in> set ys. allN P y"])
      subgoal using SequenceExpression by (intro traverseList_pres) (auto simp: allN_simps optl_def split: option.splits)
      apply (auto simp: allN_simps atom_def interior optl_def split: option.splits)
      done
  qed
next
  case (MemberExpression x1 x2 x3)
  show ?case
  proof (rule traverse_visit [OF _ en_ok [OF MemberExpression.prems] ex_ok])
    show "wresult E (traverseChildren en ex (MemberExpression x1 x2 x3)) (allN P)"
      unfolding traverseChildren.simps
      apply (rule wresult_bind [where P = "allN P"])
      subgoal using MemberExpression by (simp add: allN_simps optl_def split: option.splits)
      apply (rule wresult_bind [where P = "allN P"])
      subgoal using MemberExpression by (simp add: allN_simps optl_def split: option.splits)
      apply (auto simp: allN_simps atom_def interior optl_def split: option.splits)
      done
  qed
next
  case (CallExpression x1 x2)
  show ?case
  proof (rule traverse_visit [OF _ en_ok [OF CallExpression.prems] ex_ok])
    show "wresult E (traverseChildren en ex (CallExpression x1 x2)) (allN P)"
      unfolding traverseChildren.simps
      apply (rule wresult_bind [where P = "allN P"])
      subgoal using CallExpression by (simp add: allN_simps optl_def split: option.splits)
      apply (rule wresult_bind [where P = "\<lambda>ys. \<forall>y \<in> set ys. allN P y"])
      subgoal using CallExpression by (intro traverseList_pres) (auto simp: allN_simps optl_def split: option.splits)
      apply (auto simp: allN_simps atom_def interior optl_def split: option.splits)
      done
  qed
next
  case (AssignmentExpression x1 x2 x3)
  show ?case
  proof (rule traverse_visit [OF _ en_ok [OF AssignmentExpression.prems] ex_ok])
    show "wresult E (traverseChildren en ex (AssignmentExpression x1 x2 x3)) (allN P)"
      unfolding traverseChildren.simps
      apply (rule wresult_bind [where P = "allN P"])
      subgoal using AssignmentExpression by (simp add: allN_simps optl_def split: option.splits)
      apply (rule wresult_bind [where P = "allN P"])
      subgoal using AssignmentExpression by (simp add: allN_simps optl_def split: option.splits)
      apply (auto simp: allN_simps atom_def interior optl_def split: option.splits)
      done
  qed
next
  case (ArrayExpression x1)
  show ?case
  proof (rule traverse_visit [OF _ en_ok [OF ArrayExpression.prems] ex_ok])
    show "wresult E (traverseChildren en ex (ArrayExpression x1)) (allN P)"
      unfolding traverseChildren.simps
      apply (rule wresult_bind [where P = "\<lambda>ys. \<forall>yo \<in> set ys. \<forall>y \<in> set_option yo. allN P y"])
      subgoal using ArrayExpression by (intro traverseOptList_pres) (auto simp: allN_simps optl_def split: option.splits)
      apply (auto simp: allN_simps atom_def interior optl_def split: option.splits)
      done
  qed
next
  case (FunctionExpression x1 x2 x3)
  show ?case
  proof (rule traverse_visit [OF _ en_ok [OF FunctionExpression.prems] ex_ok])
    show "wresult E (traverseChildren en ex (FunctionExpression x1 x2 x3)) (allN P)"
      unfolding traverseChildren.simps
      apply (rule wresult_bind [where P = "\<lambda>yo. \<forall>y \<in> set_option yo. allN P y"])
      subgoal using FunctionExpression by (intro traverseOpt_pres) (auto simp: allN_simps optl_def split: option.splits)
      apply (rule wresult_bind [where P = "\<lambda>ys. \<forall>y \<in> set ys. allN P y"])
      subgoal using FunctionExpression by (intro traverseList_pres) (auto simp: allN_simps optl_def split: option.splits)
      apply (rule wresult_bind [where P = "allN P"])
      subgoal using FunctionExpression by (simp add: allN_simps optl_def split: option.splits)
      apply (auto simp: allN_simps atom_def interior optl_def split: option.splits)
      done
  qed
next
  case (ExpressionStatement x1)
  show ?case
  proof (rule traverse_visit [OF _ en_ok [OF ExpressionStatement.prems] ex_ok])
    show "wresult E (traverseChildren en ex (ExpressionStatement x1)) (allN P)"
      unfolding traverseChildren.simps
      apply (rule wresult_bind [where P = "allN P"])
      subgoal using ExpressionStatement by (simp add: allN_simps optl_def split: option.splits)
      apply (auto simp: allN_simps atom_def interior optl_def split: option.splits)
      done
  qed
next
  case (VariableDeclaration x1 x2)
  show ?case
  proof (rule traverse_visit [OF _ en_ok [OF VariableDeclaration.prems] ex_ok])
    show "wresult E (traverseChildren en ex (VariableDeclaration x1 x2)) (allN P)"
      unfolding traverseChildren.simps
      apply (rule wresult_bind [where P = "\<lambda>ys. \<forall>y \<in> set ys. allN P y"])
      subgoal using VariableDeclaration by (intro traverseList_pres) (auto simp: allN_simps optl_def split: option.splits)
      apply (auto simp: allN_simps atom_def interior optl_def split: option.splits)
      done
  qed
next
  case (VariableDeclarator x1 x2)
  show ?case
  proof (rule traverse_visit [OF _ en_ok [OF VariableDeclarator.prems] ex_ok])
    show "wresult E (traverseChildren en ex (VariableDeclarator x1 x2)) (allN P)"
      unfolding traverseChildren.simps
      apply (rule wresult_bind [where P = "allN P"])
      subgoal using VariableDeclarator by (simp add: allN_simps optl_def split: option.splits)
      apply (rule wresult_bind [where P = "\<lambda>yo. \<forall>y \<in> set_option yo. allN P y"])
      subgoal using VariableDeclarator by (intro traverseOpt_pres) (auto simp: allN_simps optl_def split: option.splits)
      apply (auto simp: allN_simps atom_def interior optl_def split: option.splits)
      done
  qed
next
  case (ReturnStatement x1)
  show ?case
  proof (rule traverse_visit [OF _ en_ok [OF ReturnStatement.prems] ex_ok])
    show "wresult E (traverseChildren en ex (ReturnStatement x1)) (allN P)"
      unfolding traverseChildren.simps
      apply (rule wresult_bind [where P = "\<lambda>yo. \<forall>y \<in> set_option yo. allN P y"])
      subgoal using ReturnStatement by (intro traverseOpt_pres) (auto simp: allN_simps optl_def split: option.splits)
      apply (auto simp: allN_simps atom_def interior optl_def split: option.splits)
      done
  qed
next
  case (IfStatement x1 x2 x3)
  show ?case
  proof (rule traverse_visit [OF _ en_ok [OF IfStatement.prems] ex_ok])
    show "wresult E (traverseChildren en ex (IfStatement x1 x2 x3)) (allN P)"
      unfolding traverseChildren.simps
      apply (rule wresult_bind [where P = "allN P"])
      subgoal using IfStatement by (simp add: allN_simps optl_def split: option.splits)
      apply (rule wresult_bind [where P = "allN P"])
      subgoal using IfStatement by (simp add: allN_simps optl_def split: option.splits)
      apply (rule wresult_bind [where P = "\<lambda>yo. \<forall>y \<in> set_option yo. allN P y"])
      subgoal using IfStatement by (intro traverseOpt_pres) (auto simp: allN_simps optl_def split: option.splits)
      apply (auto simp: allN_simps atom_def interior optl_def split: option.splits)
      done
  qed
next
  case (BlockStatement x1)
  show ?case
  proof (rule traverse_visit [OF _ en_ok [OF BlockStatement.prems] ex_ok])
    show "wresult E (traverseChildren en ex (BlockStatement x1)) (allN P)"
      unfolding traverseChildren.simps
      apply (rule wresult_bind [where P = "\<lambda>ys. \<forall>y \<in> set ys. allN P y"])
      subgoal using BlockStatement by (intro traverseList_pres) (auto simp: allN_simps optl_def split: option.splits)
      apply (auto simp: allN_simps atom_def interior optl_def split: option.splits)
      done
  qed
next
  case EmptyStatement
  show ?case
    by (rule traverse_visit [OF _ en_ok [OF EmptyStatement.prems] ex_ok]) (use EmptyStatement.prems in simp_all)
next
  case (SwitchStatement x1 x2)
  show ?case
  proof (rule traverse_visit [OF _ en_ok [OF SwitchStatement.prems] ex_ok])
    show "wresult E (traverseChildren en ex (SwitchStatement x1 x2)) (allN P)"
      unfolding traverseChildren.simps
      apply (rule wresult_bind [where P = "allN P"])
      subgoal using SwitchStatement by (simp add: allN_simps optl_def split: option.splits)
      apply (rule wresult_bind [where P = "\<lambda>ys. \<forall>y \<in> set ys. allN P y"])
      subgoal using SwitchStatement by (intro traverseList_pres) (auto simp: allN_simps optl_def split: option.splits)
      apply (auto simp: allN_simps atom_def interior optl_def split: option.splits)
      done
  qed
next
  case (SwitchCase x1 x2)
  show ?case
  proof (rule traverse_visit [OF _ en_ok [OF SwitchCase.prems] ex_ok])
    show "wresult E (traverseChildren en ex (SwitchCase x1 x2)) (allN P)"
      unfolding traverseChildren.simps
      apply (rule wresult_bind [where P = "\<lambda>yo. \<forall>y \<in> set_option yo. allN P y"])
      subgoal using SwitchCase by (intro traverseOpt_pres) (auto simp: allN_simps optl_def split: option.splits)
      apply (rule wresult_bind [where P = "\<lambda>ys. \<forall>y \<in> set ys. allN P y"])
      subgoal using SwitchCase by (intro traverseList_pres) (auto simp: allN_simps optl_def split: option.splits)
      apply (auto simp: allN_simps atom_def interior optl_def split: option.splits)
      done
  qed
next
  case (FunctionDeclaration x1 x2 x3)
  show ?case
  proof (rule traverse_visit [OF _ en_ok [OF FunctionDeclaration.prems] ex_ok])
    show "wresult E (traverseChildren en ex (FunctionDeclaration x1 x2 x3)) (allN P)"
      unfolding traverseChildren.simps
      apply (rule wresult_bind [where P = "\<lambda>yo. \<forall>y \<in> set_option yo. allN P y"])
      subgoal using FunctionDeclaration by (intro traverseOpt_pres) (auto simp: allN_simps optl_def split: option.splits)
      apply (rule wresult_bind [where P = "\<lambda>ys. \<forall>y \<in> set ys. allN P y"])
      subgoal using FunctionDeclaration by (intro traverseList_pres) (auto simp: allN_simps optl_def split: option.splits)
      apply (rule wresult_bind [where P = "allN P"])
      subgoal using FunctionDeclaration by (simp add: allN_simps optl_def split: option.splits)
      apply (auto simp: allN_simps atom_def interior optl_def split: option.splits)
      done
  qed
next
  case (Program x1)
  show ?case
  proof (rule traverse_visit [OF _ en_ok [OF Program.prems] ex_ok])
    show "wresult E (traverseChildren en ex (Program x1)) (allN P)"
      unfolding traverseChildren.simps
      apply (rule wresult_bind [where P = "\<lambda>ys. \<forall>y \<in> set ys. allN P y"])
      subgoal using Program by (intro traverseList_pres) (auto simp: allN_simps optl_def split: option.splits)
      apply (auto simp: allN_simps atom_def interior optl_def split: option.splits)
      done
  qed

qed

section \<open>The passes P2, P3 and P4\<close>

text \<open>
  The \<open>CallExpression\<close> visitor of \<open>inlineStringDecoder\<close>. \<open>strings[index]\<close> is a string
  only for an index below the length; otherwise \<open>typeof str === 'string'\<close> fails and the
  node stays.
\<close>

definition inlineStringDecoder_visit ::
  "'n number_ops \<Rightarrow> string \<Rightarrow> string list \<Rightarrow> 'n visitor" where
  "inlineStringDecoder_visit ops decoderFuncName strings node =
     (case node of
        CallExpression (Identifier name) arguments \<Rightarrow>
          if name \<noteq> decoderFuncName then Inr None
          else (case arguments of
                  [arg] \<Rightarrow>
                    (case evaluateNode ops arg of
                       Num idx \<Rightarrow>
                         if n_lt ops idx (n_of_nat ops 0)
                            \<or> n_ge ops idx (n_of_nat ops (length strings))
                         then Inr None
                         else (case n_index ops idx of
                                 None \<Rightarrow> Inr None
                               | Some i \<Rightarrow>
                                   if i < length strings
                                   then Inr (Some (StringLiteral (strings ! i)))
                                   else Inr None)
                     | _ \<Rightarrow> Inr None)
                | _ \<Rightarrow> Inr None)
      | _ \<Rightarrow> Inr None)"

definition inlineStringDecoder ::
  "'n number_ops \<Rightarrow> 'n node \<Rightarrow> string \<Rightarrow> string list \<Rightarrow> 'n node walk" where
  "inlineStringDecoder ops ast decoderFuncName strings =
     traverse (inlineStringDecoder_visit ops decoderFuncName strings) noVisitor ast"

text \<open>The \<open>BinaryExpression\<close> exit visitor of \<open>foldConstantsAndMergeStrings\<close>.\<close>

definition foldConstantsAndMergeStrings_visit :: "'n number_ops \<Rightarrow> 'n visitor" where
  "foldConstantsAndMergeStrings_visit ops node =
     (case node of
        BinaryExpression operator left right \<Rightarrow>
          (case evaluateNode ops node of
             Undefined \<Rightarrow> Inr None
           | Str s \<Rightarrow> Inr (Some (StringLiteral s))
           | Num v \<Rightarrow> if n_finite ops v then Inr (valueToNode ops (Num v)) else Inr None
           | Bool b \<Rightarrow> Inr (Some (BooleanLiteral b))
           | Null \<Rightarrow> Inr None)
      | _ \<Rightarrow> Inr None)"

definition foldConstantsAndMergeStrings :: "'n number_ops \<Rightarrow> 'n node \<Rightarrow> 'n node walk" where
  "foldConstantsAndMergeStrings ops ast =
     traverse noVisitor (foldConstantsAndMergeStrings_visit ops) ast"

text \<open>The allow-list of well-known globals.\<close>

definition KNOWN_GLOBALS :: "string list" where
  "KNOWN_GLOBALS = [
    ''Object'', ''Array'', ''String'', ''Number'', ''Boolean'', ''Function'', ''Symbol'',
    ''Date'', ''RegExp'', ''Error'', ''TypeError'', ''RangeError'', ''SyntaxError'',
    ''ReferenceError'', ''Promise'', ''Map'', ''Set'', ''WeakMap'', ''WeakSet'', ''Proxy'',
    ''Reflect'', ''ArrayBuffer'', ''DataView'', ''SharedArrayBuffer'', ''Int8Array'',
    ''Uint8Array'', ''Uint8ClampedArray'', ''Int16Array'', ''Uint16Array'', ''Int32Array'',
    ''Uint32Array'', ''Float32Array'', ''Float64Array'', ''BigInt64Array'',
    ''BigUint64Array'', ''TextEncoder'', ''TextDecoder'', ''URL'', ''URLSearchParams'',
    ''Blob'', ''File'', ''FileReader'', ''FormData'', ''Request'', ''Response'',
    ''Headers'', ''AbortController'', ''XMLHttpRequest'', ''fetch'', ''WebSocket'',
    ''EventSource'', ''BroadcastChannel'', ''Worker'', ''SharedWorker'', ''ServiceWorker'',
    ''crypto'', ''Crypto'', ''SubtleCrypto'', ''CryptoKey'', ''performance'',
    ''Performance'', ''PerformanceObserver'', ''navigator'', ''Navigator'', ''location'',
    ''Location'', ''history'', ''History'', ''localStorage'', ''sessionStorage'',
    ''Storage'', ''indexedDB'', ''IDBFactory'', ''console'', ''Console'', ''document'',
    ''Document'', ''window'', ''Window'', ''self'', ''globalThis'', ''global'',
    ''setTimeout'', ''setInterval'', ''clearTimeout'', ''clearInterval'',
    ''requestAnimationFrame'', ''cancelAnimationFrame'', ''queueMicrotask'', ''atob'',
    ''btoa'', ''eval'', ''isNaN'', ''isFinite'', ''parseInt'', ''parseFloat'',
    ''encodeURI'', ''decodeURI'', ''encodeURIComponent'', ''decodeURIComponent'', ''JSON'',
    ''Math'', ''Intl'', ''Atomics'', ''NaN'', ''Infinity'', ''undefined'',
    ''structuredClone'', ''process'', ''Buffer'', ''require'', ''module'', ''exports'',
    ''__dirname'', ''__filename'']"

text \<open>
  The \<open>CallExpression\<close> visitor of \<open>inlineGlobalResolver\<close> for one resolver
  \<open>{ funcName, mapping }\<close>. \<open>mapping\<close> is the object built by discovery, read as a map
  from keys to the names recorded for them.
\<close>

type_synonym resolver = "string \<times> (string \<Rightarrow> string option)"

definition inlineGlobalResolver_visit :: "string \<Rightarrow> (string \<Rightarrow> string option) \<Rightarrow> 'n visitor" where
  "inlineGlobalResolver_visit funcName mapping node =
     (case node of
        CallExpression (Identifier name) [StringLiteral key] \<Rightarrow>
          if name \<noteq> funcName then Inr None
          else (case mapping key of
                  None \<Rightarrow> Inr None
                | Some globalName \<Rightarrow>
                    if globalName \<noteq> [] \<and> globalName \<in> set KNOWN_GLOBALS
                    then Inr (Some (Identifier globalName))
                    else Inr None)
      | _ \<Rightarrow> Inr None)"

text \<open>\<open>for (const { funcName, mapping } of resolvers) traverse(ast, ...)\<close>\<close>

fun inlineGlobalResolver :: "'n node \<Rightarrow> resolver list \<Rightarrow> 'n node walk" where
  "inlineGlobalResolver ast [] = wreturn ast"
| "inlineGlobalResolver ast ((funcName, mapping) # resolvers) =
     wbind (traverse (inlineGlobalResolver_visit funcName mapping) noVisitor ast)
       (\<lambda>ast'. inlineGlobalResolver ast' resolvers)"

subsection \<open>The allow-list of P4\<close>

lemma empty_not_known: "[] \<notin> set KNOWN_GLOBALS"
  by (simp add: KNOWN_GLOBALS_def)

lemma inlineGlobalResolver_visit_replaces:
  "inlineGlobalResolver_visit funcName mapping node = Inr (Some r) \<longleftrightarrow>
     (\<exists>key globalName.
        node = CallExpression (Identifier funcName) [StringLiteral key]
        \<and> mapping key = Some globalName \<and> globalName \<in> set KNOWN_GLOBALS
        \<and> r = Identifier globalName)"
  using empty_not_known
  by (auto simp: inlineGlobalResolver_visit_def split: node.splits list.splits option.splits)

lemma inlineGlobalResolver_visit_total:
  "inlineGlobalResolver_visit funcName mapping node \<noteq> Inl e"
  by (auto simp: inlineGlobalResolver_visit_def split: node.splits list.splits option.splits)

text \<open>A node is not an identifier with a name outside \<open>S\<close>.\<close>

definition identifiersWithin :: "string set \<Rightarrow> 'n node \<Rightarrow> bool" where
  "identifiersWithin S node = (case node of Identifier name \<Rightarrow> name \<in> S | _ \<Rightarrow> True)"

lemma inlineGlobalResolver_within:
  assumes "set KNOWN_GLOBALS \<subseteq> S"
  shows "allN (identifiersWithin S) ast
     \<Longrightarrow> wresult False (inlineGlobalResolver ast resolvers) (allN (identifiersWithin S))"
proof (induction resolvers arbitrary: ast)
  case Nil
  then show ?case by simp
next
  case (Cons r rs)
  obtain funcName mapping where r: "r = (funcName, mapping)" by (cases r)
  have "wresult False (traverse (inlineGlobalResolver_visit funcName mapping) noVisitor ast)
          (allN (identifiersWithin S))"
  proof (rule traverse_pres)
    fix n :: "'a node"
    assume "\<not> atom n"
    then show "identifiersWithin S n"
      by (auto simp: atom_def identifiersWithin_def split: node.splits)
  next
    fix n :: "'a node"
    show "visit_ok False (identifiersWithin S) (inlineGlobalResolver_visit funcName mapping) n"
    proof (cases "inlineGlobalResolver_visit funcName mapping n")
      case (Inl e)
      then show ?thesis by (simp add: inlineGlobalResolver_visit_total)
    next
      case (Inr ro)
      show ?thesis
      proof (cases ro)
        case None
        with Inr show ?thesis by (simp add: visit_ok_def)
      next
        case (Some x)
        with Inr inlineGlobalResolver_visit_replaces [of funcName mapping n x] assms
        show ?thesis
          by (auto simp: visit_ok_def allN_simps identifiersWithin_def)
      qed
    qed
  next
    fix n :: "'a node"
    show "visit_ok False (identifiersWithin S) noVisitor n"
      by (simp add: visit_ok_def noVisitor_def)
  next
    show "allN (identifiersWithin S) ast" by (rule Cons.prems)
  qed
  then show ?case
    unfolding r inlineGlobalResolver.simps
    by (rule wresult_bind) (rule Cons.IH)
qed

text \<open>
  C8: the pass P4 returns (it does not throw), and every identifier of the tree it returns
  either was in the tree it received or is on the allow-list. Its visitor replaces a node
  exactly when the node is a call \<open>funcName("key")\<close> with one string argument, \<open>key\<close> is in
  the resolver's mapping and the mapped name is on the allow-list; the replacement is the
  identifier with that name, and every other node is left as it is.
\<close>

theorem inlineGlobalResolver_allow_list:
  "(\<exists>ast' count. inlineGlobalResolver ast resolvers = Inr (ast', count)
      \<and> (\<forall>name. Identifier name \<in> set (allNodes ast')
            \<longrightarrow> Identifier name \<in> set (allNodes ast) \<or> name \<in> set KNOWN_GLOBALS))
   \<and> (inlineGlobalResolver_visit funcName mapping node = Inr (Some r) \<longleftrightarrow>
        (\<exists>key globalName.
           node = CallExpression (Identifier funcName) [StringLiteral key]
           \<and> mapping key = Some globalName \<and> globalName \<in> set KNOWN_GLOBALS
           \<and> r = Identifier globalName))
   \<and> (inlineGlobalResolver_visit funcName mapping node \<noteq> Inl e)"
proof (intro conjI)
  let ?S = "{name. Identifier name \<in> set (allNodes ast)} \<union> set KNOWN_GLOBALS"
  have "allN (identifiersWithin ?S) ast"
    by (auto simp: allN_def identifiersWithin_def split: node.splits)
  from inlineGlobalResolver_within [OF _ this, of resolvers]
  have "wresult False (inlineGlobalResolver ast resolvers) (allN (identifiersWithin ?S))"
    by simp
  then obtain ast' count where res: "inlineGlobalResolver ast resolvers = Inr (ast', count)"
    and w: "allN (identifiersWithin ?S) ast'"
    by (auto simp: wresult_def split: sum.splits)
  from w have "\<forall>name. Identifier name \<in> set (allNodes ast')
            \<longrightarrow> Identifier name \<in> set (allNodes ast) \<or> name \<in> set KNOWN_GLOBALS"
    by (force simp: allN_def identifiersWithin_def)
  with res show "\<exists>ast' count. inlineGlobalResolver ast resolvers = Inr (ast', count)
      \<and> (\<forall>name. Identifier name \<in> set (allNodes ast')
            \<longrightarrow> Identifier name \<in> set (allNodes ast) \<or> name \<in> set KNOWN_GLOBALS)"
    by blast
qed (rule inlineGlobalResolver_visit_replaces, rule inlineGlobalResolver_visit_total)

theorem inlineGlobalResolver_allow_list_witness:
  "inlineGlobalResolver_visit ''R'' [''D'' \<mapsto> ''Date'', ''X'' \<mapsto> ''secret'']
     (CallExpression (Identifier ''R'') [StringLiteral ''D'']) = Inr (Some (Identifier ''Date''))
   \<and> inlineGlobalResolver_visit ''R'' [''D'' \<mapsto> ''Date'', ''X'' \<mapsto> ''secret'']
     (CallExpression (Identifier ''R'') [StringLiteral ''X'']) \<noteq> Inr (Some (Identifier ''secret''))
   \<and> Identifier ''secret'' \<notin> set (allNodes (fst (projr
         (inlineGlobalResolver
            (Program [ExpressionStatement
               (CallExpression (CallExpression (Identifier ''R'') [StringLiteral ''X''])
                  [NumericLiteral (1 :: rat) None])])
            [(''R'', [''D'' \<mapsto> ''Date'', ''X'' \<mapsto> ''secret''])]))))"
proof (intro conjI)
  show "inlineGlobalResolver_visit ''R'' [''D'' \<mapsto> ''Date'', ''X'' \<mapsto> ''secret'']
     (CallExpression (Identifier ''R'') [StringLiteral ''D'']) = Inr (Some (Identifier ''Date''))"
    using inlineGlobalResolver_allow_list
      [of undefined "[]" "''R''" "[''D'' \<mapsto> ''Date'', ''X'' \<mapsto> ''secret'']"
          "CallExpression (Identifier ''R'') [StringLiteral ''D'']" "Identifier ''Date''",
       THEN conjunct2, THEN conjunct1]
    by (simp add: KNOWN_GLOBALS_def)
  show "inlineGlobalResolver_visit ''R'' [''D'' \<mapsto> ''Date'', ''X'' \<mapsto> ''secret'']
     (CallExpression (Identifier ''R'') [StringLiteral ''X'']) \<noteq> Inr (Some (Identifier ''secret''))"
    using inlineGlobalResolver_allow_list
      [of undefined "[]" "''R''" "[''D'' \<mapsto> ''Date'', ''X'' \<mapsto> ''secret'']"
          "CallExpression (Identifier ''R'') [StringLiteral ''X'']" "Identifier ''secret''",
       THEN conjunct2, THEN conjunct1]
    by (simp add: KNOWN_GLOBALS_def)
  have k: "''secret'' \<notin> set KNOWN_GLOBALS"
    by (simp add: KNOWN_GLOBALS_def)
  have o: "Identifier ''secret'' \<notin> set (allNodes
            (Program [ExpressionStatement
               (CallExpression (CallExpression (Identifier ''R'') [StringLiteral ''X''])
                  [NumericLiteral (1 :: rat) None])]
              ))"
    by (simp add: allNodes.simps optl_def)
  from inlineGlobalResolver_allow_list
      [of "Program [ExpressionStatement
               (CallExpression (CallExpression (Identifier ''R'') [StringLiteral ''X''])
                  [NumericLiteral (1 :: rat) None])]"
          "[(''R'', [''D'' \<mapsto> ''Date'', ''X'' \<mapsto> ''secret''])]", THEN conjunct1]
  obtain ast' count where
    r: "inlineGlobalResolver
            (Program [ExpressionStatement
               (CallExpression (CallExpression (Identifier ''R'') [StringLiteral ''X''])
                  [NumericLiteral (1 :: rat) None])])
            [(''R'', [''D'' \<mapsto> ''Date'', ''X'' \<mapsto> ''secret''])] = Inr (ast', count)"
    and i: "\<forall>name. Identifier name \<in> set (allNodes ast')
            \<longrightarrow> Identifier name \<in> set (allNodes
                  (Program [ExpressionStatement
                     (CallExpression (CallExpression (Identifier ''R'') [StringLiteral ''X''])
                  [NumericLiteral (1 :: rat) None])]
                   ))
                \<or> name \<in> set KNOWN_GLOBALS"
    by blast
  from i k o have "Identifier ''secret'' \<notin> set (allNodes ast')" by blast
  then show "Identifier ''secret'' \<notin> set (allNodes (fst (projr
         (inlineGlobalResolver
            (Program [ExpressionStatement
               (CallExpression (CallExpression (Identifier ''R'') [StringLiteral ''X''])
                  [NumericLiteral (1 :: rat) None])])
            [(''R'', [''D'' \<mapsto> ''Date'', ''X'' \<mapsto> ''secret''])]))))"
    by (simp only: r sum.sel fst_conv) simp
qed

section \<open>Pass P5: cleanup\<close>

text \<open>\<open>isReservedWord(name)\<close>\<close>

definition isReservedWord :: "string \<Rightarrow> bool" where
  "isReservedWord name \<longleftrightarrow> name \<in> set [
     ''break'', ''case'', ''catch'', ''continue'', ''debugger'', ''default'', ''delete'',
     ''do'', ''else'', ''finally'', ''for'', ''function'', ''if'', ''in'', ''instanceof'',
     ''new'', ''return'', ''switch'', ''this'', ''throw'', ''try'', ''typeof'', ''var'',
     ''void'', ''while'', ''with'', ''class'', ''const'', ''enum'', ''export'', ''extends'',
     ''import'', ''super'', ''implements'', ''interface'', ''let'', ''package'', ''private'',
     ''protected'', ''public'', ''static'', ''yield'']"

text \<open>The test \<open>/^[a-zA-Z_$][a-zA-Z0-9_$]*$/\<close>.\<close>

definition identStart :: "char \<Rightarrow> bool" where
  "identStart c \<longleftrightarrow> c \<in> set ''abcdefghijklmnopqrstuvwxyzABCDEFGHIJKLMNOPQRSTUVWXYZ_$''"

definition identPart :: "char \<Rightarrow> bool" where
  "identPart c \<longleftrightarrow> identStart c \<or> c \<in> set ''0123456789''"

definition isIdentifierName :: "string \<Rightarrow> bool" where
  "isIdentifierName s = (case s of [] \<Rightarrow> False | c # cs \<Rightarrow> identStart c \<and> list_all identPart cs)"

text \<open>
  The visitors of \<open>cleanupTransforms\<close> that run when a node is entered and change it in
  place: the hexadecimal \<open>raw\<close> text of a numeric literal is deleted, and a computed member
  access with a string (or a sequence ending in a string) as property is rewritten.
\<close>

definition cleanupEnter :: "'n node \<Rightarrow> 'n node" where
  "cleanupEnter node =
     (case node of
        NumericLiteral v (Some raw) \<Rightarrow>
          if take 2 raw = ''0x'' then NumericLiteral v None else node
      | MemberExpression object (StringLiteral propName) True \<Rightarrow>
          if isIdentifierName propName \<and> \<not> isReservedWord propName
          then MemberExpression object (Identifier propName) False
          else node
      | MemberExpression object (SequenceExpression expressions) True \<Rightarrow>
          (if expressions = [] then node
           else (case last expressions of
                   StringLiteral propName \<Rightarrow>
                     if isIdentifierName propName \<and> \<not> isReservedWord propName
                     then MemberExpression object (Identifier propName) False
                     else MemberExpression object (StringLiteral propName) True
                 | _ \<Rightarrow> node))
      | _ \<Rightarrow> node)"

text \<open>
  What a visit leaves in the place of a node: one node, nothing (\<open>path.remove()\<close>), or
  several statements (\<open>path.replaceWithMultiple\<close>).
\<close>

datatype 'n visited = One "'n node" | Removed | Many "'n node list"

definition placeSingle :: "'n node \<Rightarrow> 'n visited \<Rightarrow> 'n node" where
  "placeSingle original v = (case v of One n \<Rightarrow> n | _ \<Rightarrow> original)"

definition placeConsequent :: "'n visited \<Rightarrow> 'n node" where
  "placeConsequent v =
     (case v of One n \<Rightarrow> n | Removed \<Rightarrow> BlockStatement [] | Many ns \<Rightarrow> BlockStatement ns)"

definition placeAlternate :: "'n visited \<Rightarrow> 'n node option" where
  "placeAlternate v =
     (case v of One n \<Rightarrow> Some n | Removed \<Rightarrow> None | Many ns \<Rightarrow> Some (BlockStatement ns))"

definition placeInList :: "'n visited \<Rightarrow> 'n node list" where
  "placeInList v = (case v of One n \<Rightarrow> [n] | Removed \<Rightarrow> [] | Many ns \<Rightarrow> ns)"



text \<open>
  Visits of the children of a node, given the function \<open>v\<close> that visits one node:
  a child in a single place, the elements of a list, an optional child, the elements of
  an array expression.
\<close>

definition singleP :: "('n node \<Rightarrow> 'n visited option) \<Rightarrow> 'n node \<Rightarrow> 'n node option" where
  "singleP v node = map_option (placeSingle node) (v node)"

primrec listP :: "('n node \<Rightarrow> 'n visited option) \<Rightarrow> 'n node list \<Rightarrow> 'n node list option" where
  "listP v [] = Some []"
| "listP v (x # xs) =
     Option.bind (v x) (\<lambda>y. Option.bind (listP v xs) (\<lambda>ys. Some (placeInList y @ ys)))"

definition optP ::
  "('n node \<Rightarrow> 'n visited option) \<Rightarrow> 'n node option \<Rightarrow> 'n node option option" where
  "optP v x = (case x of None \<Rightarrow> Some None | Some y \<Rightarrow> map_option Some (singleP v y))"

primrec optListP ::
  "('n node \<Rightarrow> 'n visited option) \<Rightarrow> 'n node option list \<Rightarrow> 'n node option list option" where
  "optListP v [] = Some []"
| "optListP v (x # xs) =
     Option.bind (optP v x) (\<lambda>y. Option.bind (optListP v xs) (\<lambda>ys. Some (y # ys)))"

definition cleanupChildren ::
  "('n node \<Rightarrow> 'n visited option) \<Rightarrow> 'n node \<Rightarrow> 'n node option" where
  "cleanupChildren v node =
     (case node of
        UnaryExpression operator argument \<Rightarrow>
          Option.bind (singleP v argument) (\<lambda>a. Some (UnaryExpression operator a))
      | BinaryExpression operator left right \<Rightarrow>
          Option.bind (singleP v left) (\<lambda>l.
          Option.bind (singleP v right) (\<lambda>r. Some (BinaryExpression operator l r)))
      | LogicalExpression operator left right \<Rightarrow>
          Option.bind (singleP v left) (\<lambda>l.
          Option.bind (singleP v right) (\<lambda>r. Some (LogicalExpression operator l r)))
      | ConditionalExpression test consequent alternate \<Rightarrow>
          Option.bind (singleP v test) (\<lambda>t.
          Option.bind (singleP v consequent) (\<lambda>c.
          Option.bind (singleP v alternate) (\<lambda>a. Some (ConditionalExpression t c a))))
      | SequenceExpression expressions \<Rightarrow>
          Option.bind (listP v expressions) (\<lambda>es. Some (SequenceExpression es))
      | MemberExpression object property computed \<Rightarrow>
          Option.bind (singleP v object) (\<lambda>ob.
          Option.bind (singleP v property) (\<lambda>p. Some (MemberExpression ob p computed)))
      | CallExpression callee arguments \<Rightarrow>
          Option.bind (singleP v callee) (\<lambda>c.
          Option.bind (listP v arguments) (\<lambda>as. Some (CallExpression c as)))
      | AssignmentExpression operator left right \<Rightarrow>
          Option.bind (singleP v left) (\<lambda>l.
          Option.bind (singleP v right) (\<lambda>r. Some (AssignmentExpression operator l r)))
      | ArrayExpression elements \<Rightarrow>
          Option.bind (optListP v elements) (\<lambda>es. Some (ArrayExpression es))
      | FunctionExpression ident params body \<Rightarrow>
          Option.bind (optP v ident) (\<lambda>i.
          Option.bind (listP v params) (\<lambda>ps.
          Option.bind (singleP v body) (\<lambda>b. Some (FunctionExpression i ps b))))
      | ExpressionStatement expression \<Rightarrow>
          Option.bind (singleP v expression) (\<lambda>e. Some (ExpressionStatement e))
      | VariableDeclaration kind declarations \<Rightarrow>
          Option.bind (listP v declarations) (\<lambda>ds. Some (VariableDeclaration kind ds))
      | VariableDeclarator ident init \<Rightarrow>
          Option.bind (singleP v ident) (\<lambda>i.
          Option.bind (optP v init) (\<lambda>x. Some (VariableDeclarator i x)))
      | ReturnStatement argument \<Rightarrow>
          Option.bind (optP v argument) (\<lambda>a. Some (ReturnStatement a))
      | IfStatement test consequent alternate \<Rightarrow>
          Option.bind (singleP v test) (\<lambda>t.
          Option.bind (v consequent) (\<lambda>c.
          Option.bind (case alternate of
                         None \<Rightarrow> Some None
                       | Some a \<Rightarrow> map_option placeAlternate (v a)) (\<lambda>a.
            Some (IfStatement t (placeConsequent c) a))))
      | BlockStatement body \<Rightarrow>
          Option.bind (listP v body) (\<lambda>b. Some (BlockStatement b))
      | SwitchStatement discriminant cases \<Rightarrow>
          Option.bind (singleP v discriminant) (\<lambda>d.
          Option.bind (listP v cases) (\<lambda>cs. Some (SwitchStatement d cs)))
      | SwitchCase test consequent \<Rightarrow>
          Option.bind (optP v test) (\<lambda>t.
          Option.bind (listP v consequent) (\<lambda>c. Some (SwitchCase t c)))
      | FunctionDeclaration ident params body \<Rightarrow>
          Option.bind (optP v ident) (\<lambda>i.
          Option.bind (listP v params) (\<lambda>ps.
          Option.bind (singleP v body) (\<lambda>b. Some (FunctionDeclaration i ps b))))
      | Program body \<Rightarrow>
          Option.bind (listP v body) (\<lambda>b. Some (Program b))
      | _ \<Rightarrow> Some node)"

text \<open>
  The visitors of \<open>cleanupTransforms\<close> that run when a node is left, on the node with its
  children already visited. A node put in place by \<open>replaceWith\<close> is queued again and
  visited afresh (by \<open>v\<close>); so are the statements put in place by
  \<open>replaceWithMultiple\<close>. A boolean literal put in place needs no further visit.
\<close>

definition cleanupExit ::
  "'n number_ops \<Rightarrow> ('n node \<Rightarrow> 'n visited option) \<Rightarrow> 'n node \<Rightarrow> 'n visited option" where
  "cleanupExit ops v node =
     (case node of
        UnaryExpression operator (NumericLiteral x r) \<Rightarrow>
          if operator = ''!'' then Some (One (BooleanLiteral (n_falsy ops x)))
          else Some (One node)
      | ConditionalExpression (BooleanLiteral b) consequent alternate \<Rightarrow>
          v (if b then consequent else alternate)
      | IfStatement (BooleanLiteral b) consequent alternate \<Rightarrow>
          if b then
            (case consequent of
               BlockStatement body \<Rightarrow> map_option Many (listP v body)
             | _ \<Rightarrow> v consequent)
          else
            (case alternate of
               None \<Rightarrow> Some Removed
             | Some (BlockStatement body) \<Rightarrow> map_option Many (listP v body)
             | Some a \<Rightarrow> v a)
      | LogicalExpression operator (BooleanLiteral b) right \<Rightarrow>
          if operator = ''&&''
          then (if b then v right else Some (One (BooleanLiteral False)))
          else if operator = ''||''
          then (if b then Some (One (BooleanLiteral True)) else v right)
          else Some (One node)
      | _ \<Rightarrow> Some (One node))"

text \<open>
  One visit of a node: an empty statement is removed on entry; otherwise the visitors on
  entry, the visits of the children, the visitors on exit. The first argument bounds the
  depth of the visits (\<open>None\<close>: the bound is used up). An empty statement or an \<open>if\<close>
  statement is expected in statement position only (an element of a body, or a branch of
  an \<open>if\<close>); in any other place the node is kept.
\<close>

primrec cleanupVisit :: "'n number_ops \<Rightarrow> nat \<Rightarrow> 'n node \<Rightarrow> 'n visited option" where
  "cleanupVisit ops 0 node = None"
| "cleanupVisit ops (Suc k) node =
     (if node = EmptyStatement then Some Removed
      else Option.bind (cleanupChildren (cleanupVisit ops k) (cleanupEnter node))
             (cleanupExit ops (cleanupVisit ops k)))"

subsection \<open>Every visit of the cleanup ends\<close>

text \<open>The number of nodes of a tree, and the room a visit's result takes.\<close>

definition nsize :: "'n node \<Rightarrow> nat" where
  "nsize node = length (allNodes node)"

lemma nsize_unfold: "nsize node = Suc (sum_list (map nsize (children node)))"
proof -
  have e: "nsize = (\<lambda>n. length (allNodes n))" by (rule ext) (simp add: nsize_def)
  show ?thesis
    unfolding e by (subst allNodes.simps) (simp add: length_concat comp_def)
qed

lemma nsize_pos: "0 < nsize node"
  by (simp add: nsize_unfold [of node])

definition vsize :: "'n visited \<Rightarrow> nat" where
  "vsize v = (case v of One n \<Rightarrow> nsize n | Removed \<Rightarrow> 1 | Many ns \<Rightarrow> Suc (sum_list (map nsize ns)))"

definition osize :: "'n node option \<Rightarrow> nat" where
  "osize x = sum_list (map nsize (optl x))"

text \<open>\<open>v\<close> answers, without growing the tree, on every node smaller than \<open>b\<close>.\<close>

definition answers :: "('n node \<Rightarrow> 'n visited option) \<Rightarrow> nat \<Rightarrow> bool" where
  "answers v b \<longleftrightarrow> (\<forall>n. nsize n < b \<longrightarrow> (\<exists>r. v n = Some r \<and> vsize r \<le> nsize n))"

lemma singleP_answers:
  assumes "answers v b" "nsize n < b"
  shows "\<exists>n'. singleP v n = Some n' \<and> nsize n' \<le> nsize n"
proof -
  from assms obtain r where r: "v n = Some r" "vsize r \<le> nsize n"
    by (auto simp: answers_def)
  then show ?thesis
    by (cases r) (auto simp: singleP_def placeSingle_def vsize_def)
qed

lemma listP_answers:
  assumes "answers v b" "\<forall>x \<in> set xs. nsize x < b"
  shows "\<exists>ys. listP v xs = Some ys \<and> sum_list (map nsize ys) \<le> sum_list (map nsize xs)"
  using assms(2)
proof (induction xs)
  case Nil
  then show ?case by simp
next
  case (Cons x xs)
  from Cons.prems assms(1) obtain r where r: "v x = Some r" "vsize r \<le> nsize x"
    by (auto simp: answers_def)
  from Cons obtain ys where ys: "listP v xs = Some ys"
    "sum_list (map nsize ys) \<le> sum_list (map nsize xs)" by auto
  have "sum_list (map nsize (placeInList r)) \<le> vsize r"
    by (cases r) (auto simp: placeInList_def vsize_def)
  with r ys show ?case by simp
qed

lemma optP_answers:
  assumes "answers v b" "\<forall>x \<in> set_option xo. nsize x < b"
  shows "\<exists>yo. optP v xo = Some yo \<and> osize yo \<le> osize xo"
proof (cases xo)
  case None
  then show ?thesis by (simp add: optP_def)
next
  case (Some x)
  with assms singleP_answers [of v b x] show ?thesis
    by (auto simp: optP_def osize_def optl_def)
qed

lemma optListP_answers:
  assumes "answers v b" "\<forall>xo \<in> set xs. \<forall>x \<in> set_option xo. nsize x < b"
  shows "\<exists>ys. optListP v xs = Some ys \<and> sum_list (map osize ys) \<le> sum_list (map osize xs)"
  using assms(2)
proof (induction xs)
  case Nil
  then show ?case by simp
next
  case (Cons xo xs)
  from Cons.prems optP_answers [OF assms(1), of xo]
  obtain yo where yo: "optP v xo = Some yo" "osize yo \<le> osize xo" by auto
  from Cons obtain ys where "optListP v xs = Some ys"
    "sum_list (map osize ys) \<le> sum_list (map osize xs)" by auto
  with yo show ?case by simp
qed

lemmas nsize_simps =
  nsize_unfold [of "NumericLiteral a b" for a b]
  nsize_unfold [of "StringLiteral a" for a]
  nsize_unfold [of "BooleanLiteral a" for a]
  nsize_unfold [of NullLiteral]
  nsize_unfold [of "Identifier a" for a]
  nsize_unfold [of "UnaryExpression a b" for a b]
  nsize_unfold [of "BinaryExpression a b c" for a b c]
  nsize_unfold [of "LogicalExpression a b c" for a b c]
  nsize_unfold [of "ConditionalExpression a b c" for a b c]
  nsize_unfold [of "SequenceExpression a" for a]
  nsize_unfold [of "MemberExpression a b c" for a b c]
  nsize_unfold [of "CallExpression a b" for a b]
  nsize_unfold [of "AssignmentExpression a b c" for a b c]
  nsize_unfold [of "ArrayExpression a" for a]
  nsize_unfold [of "FunctionExpression a b c" for a b c]
  nsize_unfold [of "ExpressionStatement a" for a]
  nsize_unfold [of "VariableDeclaration a b" for a b]
  nsize_unfold [of "VariableDeclarator a b" for a b]
  nsize_unfold [of "ReturnStatement a" for a]
  nsize_unfold [of "IfStatement a b c" for a b c]
  nsize_unfold [of "BlockStatement a" for a]
  nsize_unfold [of EmptyStatement]
  nsize_unfold [of "SwitchStatement a b" for a b]
  nsize_unfold [of "SwitchCase a b" for a b]
  nsize_unfold [of "FunctionDeclaration a b c" for a b c]
  nsize_unfold [of "Program a" for a]


lemma mem_nsize_le: "x \<in> set xs \<Longrightarrow> nsize x \<le> sum_list (map nsize xs)"
  by (induction xs) auto

lemma mem_osize_le: "x \<in> set_option xo \<Longrightarrow> xo \<in> set xs \<Longrightarrow> nsize x \<le> sum_list (map osize xs)"
  by (induction xs) (auto simp: osize_def optl_def)

lemma sum_optl: "sum_list (map nsize (concat (map optl xs))) = sum_list (map osize xs)"
  by (induction xs) (auto simp: osize_def)

lemmas sizes = sum_optl

lemma cleanupChildren_answers:
  assumes "answers v b" "nsize n \<le> b"
  shows "\<exists>n'. cleanupChildren v n = Some n' \<and> nsize n' \<le> nsize n"
proof (cases n)
  case (NumericLiteral x1 x2)
  then show ?thesis by (simp add: cleanupChildren_def)
next
  case (StringLiteral x1)
  then show ?thesis by (simp add: cleanupChildren_def)
next
  case (BooleanLiteral x1)
  then show ?thesis by (simp add: cleanupChildren_def)
next
  case NullLiteral
  then show ?thesis by (simp add: cleanupChildren_def)
next
  case (Identifier x1)
  then show ?thesis by (simp add: cleanupChildren_def)
next
  case (UnaryExpression x1 x2)
  with assms(2) have sz: "nsize (UnaryExpression x1 x2) \<le> b" by simp
  from sz singleP_answers [OF assms(1), of x2] obtain x2' where x2: "singleP v x2 = Some x2'" "nsize x2' \<le> nsize x2"
    by (auto simp: nsize_simps)
  from x2 show ?thesis
    unfolding UnaryExpression by (simp add: cleanupChildren_def nsize_simps sizes osize_def optl_def split: option.splits)
next
  case (BinaryExpression x1 x2 x3)
  with assms(2) have sz: "nsize (BinaryExpression x1 x2 x3) \<le> b" by simp
  from sz singleP_answers [OF assms(1), of x2] obtain x2' where x2: "singleP v x2 = Some x2'" "nsize x2' \<le> nsize x2"
    by (auto simp: nsize_simps)
  from sz singleP_answers [OF assms(1), of x3] obtain x3' where x3: "singleP v x3 = Some x3'" "nsize x3' \<le> nsize x3"
    by (auto simp: nsize_simps)
  from x2 x3 show ?thesis
    unfolding BinaryExpression by (simp add: cleanupChildren_def nsize_simps sizes osize_def optl_def split: option.splits)
next
  case (LogicalExpression x1 x2 x3)
  with assms(2) have sz: "nsize (LogicalExpression x1 x2 x3) \<le> b" by simp
  from sz singleP_answers [OF assms(1), of x2] obtain x2' where x2: "singleP v x2 = Some x2'" "nsize x2' \<le> nsize x2"
    by (auto simp: nsize_simps)
  from sz singleP_answers [OF assms(1), of x3] obtain x3' where x3: "singleP v x3 = Some x3'" "nsize x3' \<le> nsize x3"
    by (auto simp: nsize_simps)
  from x2 x3 show ?thesis
    unfolding LogicalExpression by (simp add: cleanupChildren_def nsize_simps sizes osize_def optl_def split: option.splits)
next
  case (ConditionalExpression x1 x2 x3)
  with assms(2) have sz: "nsize (ConditionalExpression x1 x2 x3) \<le> b" by simp
  from sz singleP_answers [OF assms(1), of x1] obtain x1' where x1: "singleP v x1 = Some x1'" "nsize x1' \<le> nsize x1"
    by (auto simp: nsize_simps)
  from sz singleP_answers [OF assms(1), of x2] obtain x2' where x2: "singleP v x2 = Some x2'" "nsize x2' \<le> nsize x2"
    by (auto simp: nsize_simps)
  from sz singleP_answers [OF assms(1), of x3] obtain x3' where x3: "singleP v x3 = Some x3'" "nsize x3' \<le> nsize x3"
    by (auto simp: nsize_simps)
  from x1 x2 x3 show ?thesis
    unfolding ConditionalExpression by (simp add: cleanupChildren_def nsize_simps sizes osize_def optl_def split: option.splits)
next
  case (SequenceExpression x1)
  with assms(2) have sz: "nsize (SequenceExpression x1) \<le> b" by simp
  have bx1: "\<forall>x \<in> set x1. nsize x < b"
  proof
    fix x assume "x \<in> set x1"
    from mem_nsize_le [OF this] sz show "nsize x < b" by (simp add: nsize_simps sizes)
  qed
  from listP_answers [OF assms(1) bx1] obtain x1' where x1: "listP v x1 = Some x1'" "sum_list (map nsize x1') \<le> sum_list (map nsize x1)"
    by blast
  from x1 show ?thesis
    unfolding SequenceExpression by (simp add: cleanupChildren_def nsize_simps sizes osize_def optl_def split: option.splits)
next
  case (MemberExpression x1 x2 x3)
  with assms(2) have sz: "nsize (MemberExpression x1 x2 x3) \<le> b" by simp
  from sz singleP_answers [OF assms(1), of x1] obtain x1' where x1: "singleP v x1 = Some x1'" "nsize x1' \<le> nsize x1"
    by (auto simp: nsize_simps)
  from sz singleP_answers [OF assms(1), of x2] obtain x2' where x2: "singleP v x2 = Some x2'" "nsize x2' \<le> nsize x2"
    by (auto simp: nsize_simps)
  from x1 x2 show ?thesis
    unfolding MemberExpression by (simp add: cleanupChildren_def nsize_simps sizes osize_def optl_def split: option.splits)
next
  case (CallExpression x1 x2)
  with assms(2) have sz: "nsize (CallExpression x1 x2) \<le> b" by simp
  from sz singleP_answers [OF assms(1), of x1] obtain x1' where x1: "singleP v x1 = Some x1'" "nsize x1' \<le> nsize x1"
    by (auto simp: nsize_simps)
  have bx2: "\<forall>x \<in> set x2. nsize x < b"
  proof
    fix x assume "x \<in> set x2"
    from mem_nsize_le [OF this] sz show "nsize x < b" by (simp add: nsize_simps sizes)
  qed
  from listP_answers [OF assms(1) bx2] obtain x2' where x2: "listP v x2 = Some x2'" "sum_list (map nsize x2') \<le> sum_list (map nsize x2)"
    by blast
  from x1 x2 show ?thesis
    unfolding CallExpression by (simp add: cleanupChildren_def nsize_simps sizes osize_def optl_def split: option.splits)
next
  case (AssignmentExpression x1 x2 x3)
  with assms(2) have sz: "nsize (AssignmentExpression x1 x2 x3) \<le> b" by simp
  from sz singleP_answers [OF assms(1), of x2] obtain x2' where x2: "singleP v x2 = Some x2'" "nsize x2' \<le> nsize x2"
    by (auto simp: nsize_simps)
  from sz singleP_answers [OF assms(1), of x3] obtain x3' where x3: "singleP v x3 = Some x3'" "nsize x3' \<le> nsize x3"
    by (auto simp: nsize_simps)
  from x2 x3 show ?thesis
    unfolding AssignmentExpression by (simp add: cleanupChildren_def nsize_simps sizes osize_def optl_def split: option.splits)
next
  case (ArrayExpression x1)
  with assms(2) have sz: "nsize (ArrayExpression x1) \<le> b" by simp
  have bx1: "\<forall>xo \<in> set x1. \<forall>x \<in> set_option xo. nsize x < b"
  proof (intro ballI)
    fix xo x assume "xo \<in> set x1" "x \<in> set_option xo"
    from mem_osize_le [OF this(2,1)] sz show "nsize x < b" by (simp add: nsize_simps sum_optl)
  qed
  from optListP_answers [OF assms(1) bx1] obtain x1' where x1: "optListP v x1 = Some x1'" "sum_list (map osize x1') \<le> sum_list (map osize x1)"
    by blast
  from x1 show ?thesis
    unfolding ArrayExpression by (simp add: cleanupChildren_def nsize_simps sizes osize_def optl_def split: option.splits)
next
  case (FunctionExpression x1 x2 x3)
  with assms(2) have sz: "nsize (FunctionExpression x1 x2 x3) \<le> b" by simp
  have bx1: "\<forall>x \<in> set_option x1. nsize x < b"
    using sz by (auto simp: nsize_simps optl_def)
  from optP_answers [OF assms(1) bx1] obtain x1' where x1: "optP v x1 = Some x1'" "osize x1' \<le> osize x1"
    by blast
  have bx2: "\<forall>x \<in> set x2. nsize x < b"
  proof
    fix x assume "x \<in> set x2"
    from mem_nsize_le [OF this] sz show "nsize x < b" by (simp add: nsize_simps sizes)
  qed
  from listP_answers [OF assms(1) bx2] obtain x2' where x2: "listP v x2 = Some x2'" "sum_list (map nsize x2') \<le> sum_list (map nsize x2)"
    by blast
  from sz singleP_answers [OF assms(1), of x3] obtain x3' where x3: "singleP v x3 = Some x3'" "nsize x3' \<le> nsize x3"
    by (auto simp: nsize_simps)
  from x1 x2 x3 show ?thesis
    unfolding FunctionExpression by (simp add: cleanupChildren_def nsize_simps sizes osize_def optl_def split: option.splits)
next
  case (ExpressionStatement x1)
  with assms(2) have sz: "nsize (ExpressionStatement x1) \<le> b" by simp
  from sz singleP_answers [OF assms(1), of x1] obtain x1' where x1: "singleP v x1 = Some x1'" "nsize x1' \<le> nsize x1"
    by (auto simp: nsize_simps)
  from x1 show ?thesis
    unfolding ExpressionStatement by (simp add: cleanupChildren_def nsize_simps sizes osize_def optl_def split: option.splits)
next
  case (VariableDeclaration x1 x2)
  with assms(2) have sz: "nsize (VariableDeclaration x1 x2) \<le> b" by simp
  have bx2: "\<forall>x \<in> set x2. nsize x < b"
  proof
    fix x assume "x \<in> set x2"
    from mem_nsize_le [OF this] sz show "nsize x < b" by (simp add: nsize_simps sizes)
  qed
  from listP_answers [OF assms(1) bx2] obtain x2' where x2: "listP v x2 = Some x2'" "sum_list (map nsize x2') \<le> sum_list (map nsize x2)"
    by blast
  from x2 show ?thesis
    unfolding VariableDeclaration by (simp add: cleanupChildren_def nsize_simps sizes osize_def optl_def split: option.splits)
next
  case (VariableDeclarator x1 x2)
  with assms(2) have sz: "nsize (VariableDeclarator x1 x2) \<le> b" by simp
  from sz singleP_answers [OF assms(1), of x1] obtain x1' where x1: "singleP v x1 = Some x1'" "nsize x1' \<le> nsize x1"
    by (auto simp: nsize_simps)
  have bx2: "\<forall>x \<in> set_option x2. nsize x < b"
    using sz by (auto simp: nsize_simps optl_def)
  from optP_answers [OF assms(1) bx2] obtain x2' where x2: "optP v x2 = Some x2'" "osize x2' \<le> osize x2"
    by blast
  from x1 x2 show ?thesis
    unfolding VariableDeclarator by (simp add: cleanupChildren_def nsize_simps sizes osize_def optl_def split: option.splits)
next
  case (ReturnStatement x1)
  with assms(2) have sz: "nsize (ReturnStatement x1) \<le> b" by simp
  have bx1: "\<forall>x \<in> set_option x1. nsize x < b"
    using sz by (auto simp: nsize_simps optl_def)
  from optP_answers [OF assms(1) bx1] obtain x1' where x1: "optP v x1 = Some x1'" "osize x1' \<le> osize x1"
    by blast
  from x1 show ?thesis
    unfolding ReturnStatement by (simp add: cleanupChildren_def nsize_simps sizes osize_def optl_def split: option.splits)
next
  case (IfStatement x1 x2 x3)
  with assms(2) have sz: "nsize (IfStatement x1 x2 x3) \<le> b" by simp
  from sz singleP_answers [OF assms(1), of x1] obtain x1' where x1: "singleP v x1 = Some x1'" "nsize x1' \<le> nsize x1"
    by (auto simp: nsize_simps)
  from sz have "nsize x2 < b" by (simp add: nsize_simps)
  with assms(1) obtain c where c: "v x2 = Some c" "vsize c \<le> nsize x2"
    unfolding answers_def by blast
  have pc: "nsize (placeConsequent c) \<le> vsize c"
    by (cases c) (auto simp: placeConsequent_def vsize_def nsize_simps)
  have "\<exists>a. (case x3 of None \<Rightarrow> Some None | Some a \<Rightarrow> map_option placeAlternate (v a)) = Some a
            \<and> osize a \<le> osize x3"
  proof (cases x3)
    case None
    then show ?thesis by simp
  next
    case (Some y)
    with sz have "nsize y < b" by (simp add: nsize_simps optl_def)
    with assms(1) obtain r where r: "v y = Some r" "vsize r \<le> nsize y"
      unfolding answers_def by blast
    have "osize (placeAlternate r) \<le> vsize r"
      by (cases r) (auto simp: placeAlternate_def vsize_def nsize_simps osize_def optl_def)
    with r Some show ?thesis by (simp add: osize_def optl_def)
  qed
  then obtain a where a: "(case x3 of None \<Rightarrow> Some None | Some a \<Rightarrow> map_option placeAlternate (v a)) = Some a"
    "osize a \<le> osize x3" by blast
  from x1 c pc a show ?thesis
    unfolding IfStatement by (simp add: cleanupChildren_def nsize_simps sizes osize_def)
next
  case (BlockStatement x1)
  with assms(2) have sz: "nsize (BlockStatement x1) \<le> b" by simp
  have bx1: "\<forall>x \<in> set x1. nsize x < b"
  proof
    fix x assume "x \<in> set x1"
    from mem_nsize_le [OF this] sz show "nsize x < b" by (simp add: nsize_simps sizes)
  qed
  from listP_answers [OF assms(1) bx1] obtain x1' where x1: "listP v x1 = Some x1'" "sum_list (map nsize x1') \<le> sum_list (map nsize x1)"
    by blast
  from x1 show ?thesis
    unfolding BlockStatement by (simp add: cleanupChildren_def nsize_simps sizes osize_def optl_def split: option.splits)
next
  case EmptyStatement
  then show ?thesis by (simp add: cleanupChildren_def)
next
  case (SwitchStatement x1 x2)
  with assms(2) have sz: "nsize (SwitchStatement x1 x2) \<le> b" by simp
  from sz singleP_answers [OF assms(1), of x1] obtain x1' where x1: "singleP v x1 = Some x1'" "nsize x1' \<le> nsize x1"
    by (auto simp: nsize_simps)
  have bx2: "\<forall>x \<in> set x2. nsize x < b"
  proof
    fix x assume "x \<in> set x2"
    from mem_nsize_le [OF this] sz show "nsize x < b" by (simp add: nsize_simps sizes)
  qed
  from listP_answers [OF assms(1) bx2] obtain x2' where x2: "listP v x2 = Some x2'" "sum_list (map nsize x2') \<le> sum_list (map nsize x2)"
    by blast
  from x1 x2 show ?thesis
    unfolding SwitchStatement by (simp add: cleanupChildren_def nsize_simps sizes osize_def optl_def split: option.splits)
next
  case (SwitchCase x1 x2)
  with assms(2) have sz: "nsize (SwitchCase x1 x2) \<le> b" by simp
  have bx1: "\<forall>x \<in> set_option x1. nsize x < b"
    using sz by (auto simp: nsize_simps optl_def)
  from optP_answers [OF assms(1) bx1] obtain x1' where x1: "optP v x1 = Some x1'" "osize x1' \<le> osize x1"
    by blast
  have bx2: "\<forall>x \<in> set x2. nsize x < b"
  proof
    fix x assume "x \<in> set x2"
    from mem_nsize_le [OF this] sz show "nsize x < b" by (simp add: nsize_simps sizes)
  qed
  from listP_answers [OF assms(1) bx2] obtain x2' where x2: "listP v x2 = Some x2'" "sum_list (map nsize x2') \<le> sum_list (map nsize x2)"
    by blast
  from x1 x2 show ?thesis
    unfolding SwitchCase by (simp add: cleanupChildren_def nsize_simps sizes osize_def optl_def split: option.splits)
next
  case (FunctionDeclaration x1 x2 x3)
  with assms(2) have sz: "nsize (FunctionDeclaration x1 x2 x3) \<le> b" by simp
  have bx1: "\<forall>x \<in> set_option x1. nsize x < b"
    using sz by (auto simp: nsize_simps optl_def)
  from optP_answers [OF assms(1) bx1] obtain x1' where x1: "optP v x1 = Some x1'" "osize x1' \<le> osize x1"
    by blast
  have bx2: "\<forall>x \<in> set x2. nsize x < b"
  proof
    fix x assume "x \<in> set x2"
    from mem_nsize_le [OF this] sz show "nsize x < b" by (simp add: nsize_simps sizes)
  qed
  from listP_answers [OF assms(1) bx2] obtain x2' where x2: "listP v x2 = Some x2'" "sum_list (map nsize x2') \<le> sum_list (map nsize x2)"
    by blast
  from sz singleP_answers [OF assms(1), of x3] obtain x3' where x3: "singleP v x3 = Some x3'" "nsize x3' \<le> nsize x3"
    by (auto simp: nsize_simps)
  from x1 x2 x3 show ?thesis
    unfolding FunctionDeclaration by (simp add: cleanupChildren_def nsize_simps sizes osize_def optl_def split: option.splits)
next
  case (Program x1)
  with assms(2) have sz: "nsize (Program x1) \<le> b" by simp
  have bx1: "\<forall>x \<in> set x1. nsize x < b"
  proof
    fix x assume "x \<in> set x1"
    from mem_nsize_le [OF this] sz show "nsize x < b" by (simp add: nsize_simps sizes)
  qed
  from listP_answers [OF assms(1) bx1] obtain x1' where x1: "listP v x1 = Some x1'" "sum_list (map nsize x1') \<le> sum_list (map nsize x1)"
    by blast
  from x1 show ?thesis
    unfolding Program by (simp add: cleanupChildren_def nsize_simps sizes osize_def optl_def split: option.splits)
qed

lemma last_nsize_le: "xs \<noteq> [] \<Longrightarrow> nsize (last xs) \<le> sum_list (map nsize xs)"
  by (rule mem_nsize_le) simp

lemma cleanupEnter_size: "nsize (cleanupEnter n) \<le> nsize n"
proof (cases n)
  case (NumericLiteral x1 x2)
  then show ?thesis
    by (simp add: cleanupEnter_def nsize_simps split: option.splits)
next
  case (MemberExpression ob p c)
  show ?thesis
  proof (cases p)
    case (StringLiteral s)
    with MemberExpression show ?thesis
      by (simp add: cleanupEnter_def nsize_simps split: bool.splits)
  next
    case (SequenceExpression es)
    show ?thesis
    proof (cases "es = [] \<or> \<not> c")
      case True
      with MemberExpression SequenceExpression show ?thesis
        by (auto simp: cleanupEnter_def nsize_simps split: bool.splits node.splits)
    next
      case False
      then have "0 < sum_list (map nsize es)"
        using nsize_pos [of "hd es"] by (cases es) auto
      with False MemberExpression SequenceExpression show ?thesis
        by (cases "last es") (simp_all add: cleanupEnter_def nsize_simps split: bool.splits)
    qed
  qed (use MemberExpression in \<open>simp_all add: cleanupEnter_def split: bool.splits\<close>)
qed (simp_all add: cleanupEnter_def)

lemma answers_sub:
  assumes "answers v b" "nsize c < b"
  obtains r where "v c = Some r" "vsize r \<le> nsize c"
  using assms unfolding answers_def by blast

lemma cleanupExit_answers:
  assumes a: "answers v b" and sz: "nsize n \<le> b"
  shows "\<exists>r. cleanupExit ops v n = Some r \<and> vsize r \<le> nsize n"
proof (cases n)
  case (UnaryExpression operator argument)
  then show ?thesis
    by (cases argument) (simp_all add: cleanupExit_def vsize_def nsize_simps)
next
  case (ConditionalExpression test consequent alternate)
  show ?thesis
  proof (cases test)
    case (BooleanLiteral bv)
    from sz ConditionalExpression have "nsize (if bv then consequent else alternate) < b"
      by (simp add: nsize_simps)
    from answers_sub [OF a this] obtain r
      where "v (if bv then consequent else alternate) = Some r"
        "vsize r \<le> nsize (if bv then consequent else alternate)" .
    with ConditionalExpression BooleanLiteral show ?thesis
      by (auto simp: cleanupExit_def nsize_simps split: if_splits)
  qed (use ConditionalExpression in \<open>simp_all add: cleanupExit_def vsize_def\<close>)
next
  case (LogicalExpression operator left right)
  show ?thesis
  proof (cases left)
    case (BooleanLiteral bv)
    from sz LogicalExpression have "nsize right < b"
      by (simp add: nsize_simps)
    from answers_sub [OF a this] obtain r where "v right = Some r" "vsize r \<le> nsize right" .
    with LogicalExpression BooleanLiteral show ?thesis
      by (auto simp: cleanupExit_def nsize_simps vsize_def)
  qed (use LogicalExpression in \<open>simp_all add: cleanupExit_def vsize_def\<close>)
next
  case (IfStatement test consequent alternate)
  have block: "\<exists>r. map_option Many (listP v body) = Some r \<and> vsize r \<le> Suc (sum_list (map nsize body))"
    if "Suc (sum_list (map nsize body)) < b" for body
  proof -
    have "\<forall>x \<in> set body. nsize x < b"
    proof
      fix x assume "x \<in> set body"
      from mem_nsize_le [OF this] that show "nsize x < b" by simp
    qed
    from listP_answers [OF a this] show ?thesis
      by (auto simp: vsize_def)
  qed
  show ?thesis
  proof (cases test)
    case (BooleanLiteral bv)
    show ?thesis
    proof (cases bv)
      case True
      from sz IfStatement have lt: "nsize consequent < b" by (simp add: nsize_simps)
      show ?thesis
      proof (cases "\<exists>body. consequent = BlockStatement body")
        case True
        then obtain body where c: "consequent = BlockStatement body" by blast
        with lt have "Suc (sum_list (map nsize body)) < b" by (simp add: nsize_simps)
        from block [OF this] IfStatement BooleanLiteral \<open>bv\<close> c show ?thesis
          by (auto simp: cleanupExit_def nsize_simps)
      next
        case False
        from answers_sub [OF a lt] obtain r
          where "v consequent = Some r" "vsize r \<le> nsize consequent" .
        with False IfStatement BooleanLiteral \<open>bv\<close> show ?thesis
          by (cases consequent) (auto simp: cleanupExit_def nsize_simps)
      qed
    next
      case False
      show ?thesis
      proof (cases alternate)
        case None
        with False IfStatement BooleanLiteral show ?thesis
          by (simp add: cleanupExit_def vsize_def nsize_simps)
      next
        case (Some alt)
        from sz IfStatement Some have lt: "nsize alt < b" by (simp add: nsize_simps optl_def)
        show ?thesis
        proof (cases "\<exists>body. alt = BlockStatement body")
          case True
          then obtain body where c: "alt = BlockStatement body" by blast
          with lt have "Suc (sum_list (map nsize body)) < b" by (simp add: nsize_simps)
          from block [OF this] IfStatement BooleanLiteral \<open>\<not> bv\<close> Some c show ?thesis
            by (auto simp: cleanupExit_def nsize_simps optl_def)
        next
          case nb: False
          from answers_sub [OF a lt] obtain r where "v alt = Some r" "vsize r \<le> nsize alt" .
          with nb IfStatement BooleanLiteral \<open>\<not> bv\<close> Some show ?thesis
            by (cases alt) (auto simp: cleanupExit_def nsize_simps optl_def)
        qed
      qed
    qed
  qed (use IfStatement in \<open>simp_all add: cleanupExit_def vsize_def\<close>)
qed (simp_all add: cleanupExit_def vsize_def)

lemma cleanupVisit_answers: "answers (cleanupVisit ops k) k"
proof (induction k)
  case 0
  show ?case by (simp add: answers_def)
next
  case (Suc k)
  show ?case
    unfolding answers_def
  proof (intro allI impI)
    fix n :: "'a node"
    assume "nsize n < Suc k"
    then have le: "nsize (cleanupEnter n) \<le> k"
      using cleanupEnter_size [of n] by simp
    show "\<exists>r. cleanupVisit ops (Suc k) n = Some r \<and> vsize r \<le> nsize n"
    proof (cases "n = EmptyStatement")
      case True
      then show ?thesis by (simp add: vsize_def nsize_simps)
    next
      case False
      from cleanupChildren_answers [OF Suc le] obtain n'
        where c: "cleanupChildren (cleanupVisit ops k) (cleanupEnter n) = Some n'"
          and s: "nsize n' \<le> nsize (cleanupEnter n)" by blast
      from s le have "nsize n' \<le> k" by simp
      from cleanupExit_answers [OF Suc this, of ops] obtain r
        where "cleanupExit ops (cleanupVisit ops k) n' = Some r" "vsize r \<le> nsize n'" by blast
      with c s False cleanupEnter_size [of n] show ?thesis by simp
    qed
  qed
qed

lemma cleanupVisit_bound: "cleanupVisit ops (Suc (length (allNodes ast))) ast \<noteq> None"
proof -
  have "nsize ast < Suc (length (allNodes ast))" by (simp add: nsize_def)
  with cleanupVisit_answers [of ops "Suc (length (allNodes ast))"]
  obtain r where "cleanupVisit ops (Suc (length (allNodes ast))) ast = Some r"
    unfolding answers_def by blast
  then show ?thesis by simp
qed

text \<open>
  \<open>cleanupTransforms(ast)\<close>: the visit of the root. The bound is one more than the number
  of nodes, which is never used up (\<open>cleanupVisit_bound\<close> below).
\<close>

definition cleanupTransforms :: "'n number_ops \<Rightarrow> 'n node \<Rightarrow> 'n node" where
  "cleanupTransforms ops ast =
     (case cleanupVisit ops (Suc (length (allNodes ast))) ast of
        Some v \<Rightarrow> placeSingle ast v
      | None \<Rightarrow> ast)"

section \<open>Discovery of global resolvers\<close>

text \<open>The name that a \<open>return\<close> of a resolver's case yields: \<open>OBJ["NAME"]\<close>, \<open>OBJ.NAME\<close> or a
  bare identifier.\<close>

definition returnedName :: "'n node \<Rightarrow> string option" where
  "returnedName returnNode =
     (case returnNode of
        MemberExpression object property computed \<Rightarrow>
          (case property of
             StringLiteral v \<Rightarrow> Some v
           | Identifier name \<Rightarrow> if \<not> computed then Some name else None
           | _ \<Rightarrow> None)
      | Identifier name \<Rightarrow> Some name
      | _ \<Rightarrow> None)"

text \<open>The argument of the first statement of a case that is a \<open>return\<close> with an argument;
  the loop over the case's statements ends there (\<open>break\<close>).\<close>

fun firstReturn :: "'n node list \<Rightarrow> 'n node option" where
  "firstReturn [] = None"
| "firstReturn (caseStmt # rest) =
     (case caseStmt of
        ReturnStatement (Some argument) \<Rightarrow> Some argument
      | _ \<Rightarrow> firstReturn rest)"

text \<open>
  \<open>mapping[key] = propName\<close> on the plain object \<open>mapping\<close>: the key \<open>__proto__\<close> names the
  prototype, and assigning a string to it stores nothing.
\<close>

definition store :: "string \<Rightarrow> string \<Rightarrow> (string \<Rightarrow> string option) \<Rightarrow> (string \<Rightarrow> string option)" where
  "store key propName mapping = (if key = ''__proto__'' then mapping else mapping(key \<mapsto> propName))"

text \<open>One round of the loop over \<open>stmt.cases\<close>, on \<open>(mapping, validCases)\<close>.\<close>

definition caseStep ::
  "'n node \<Rightarrow> (string \<Rightarrow> string option) \<times> nat \<Rightarrow> (string \<Rightarrow> string option) \<times> nat" where
  "caseStep switchCase acc =
     (case switchCase of
        SwitchCase (Some (StringLiteral key)) consequent \<Rightarrow>
          (case firstReturn consequent of
             None \<Rightarrow> acc
           | Some returnNode \<Rightarrow>
               (case returnedName returnNode of
                  None \<Rightarrow> acc
                | Some propName \<Rightarrow>
                    if propName \<noteq> [] then (store key propName (fst acc), snd acc + 1) else acc))
      | _ \<Rightarrow> acc)"

text \<open>The loop of \<open>tryExtractResolver\<close> over the statements of the function's body.\<close>

fun tryStatements :: "string \<Rightarrow> 'n node list \<Rightarrow> resolver option" where
  "tryStatements funcName [] = None"
| "tryStatements funcName (stmt # rest) =
     (case stmt of
        SwitchStatement discriminant cases \<Rightarrow>
          (case fold caseStep cases (Map.empty, 0) of
             (mapping, validCases) \<Rightarrow>
               if validCases \<ge> 5 then Some (funcName, mapping)
               else tryStatements funcName rest)
      | _ \<Rightarrow> tryStatements funcName rest)"

text \<open>\<open>tryExtractResolver(funcNode, funcName)\<close>, given the function's \<open>body\<close> node.\<close>

definition tryExtractResolver :: "'n node \<Rightarrow> string option \<Rightarrow> resolver option" where
  "tryExtractResolver body funcName =
     (case funcName of
        None \<Rightarrow> None
      | Some name \<Rightarrow>
          if name = [] then None
          else (case body of
                  BlockStatement stmts \<Rightarrow> tryStatements name stmts
                | _ \<Rightarrow> None))"

text \<open>The two visitors of \<open>extractGlobalResolver\<close>, on the list of resolvers found so far.\<close>

definition extractGlobalResolver_visit :: "'n node \<Rightarrow> resolver list \<Rightarrow> resolver list" where
  "extractGlobalResolver_visit node resolvers =
     (case node of
        FunctionDeclaration ident params body \<Rightarrow>
          (case tryExtractResolver body
                  (case ident of Some (Identifier name) \<Rightarrow> Some name | _ \<Rightarrow> None) of
             None \<Rightarrow> resolvers
           | Some resolver \<Rightarrow> resolvers @ [resolver])
      | VariableDeclarator (Identifier name) (Some (FunctionExpression ident params body)) \<Rightarrow>
          (case tryExtractResolver body (Some name) of
             None \<Rightarrow> resolvers
           | Some resolver \<Rightarrow> resolvers @ [resolver])
      | _ \<Rightarrow> resolvers)"

definition extractGlobalResolver :: "'n node \<Rightarrow> resolver list" where
  "extractGlobalResolver ast = fold extractGlobalResolver_visit (allNodes ast) []"

section \<open>The pipeline driver (deobfuscate)\<close>

text \<open>The counters of \<open>stats\<close> that the driver reads or that the passes P1 to P4 update.\<close>

record stats =
  constantArrayInlined :: nat
  stringDecoderInlined :: nat
  stringsMerged :: nat
  constantFolded :: nat
  globalResolverInlined :: nat

definition resetStats :: stats where
  "resetStats = \<lparr> constantArrayInlined = 0, stringDecoderInlined = 0, stringsMerged = 0,
                   constantFolded = 0, globalResolverInlined = 0 \<rparr>"

text \<open>\<open>CONFIG.maxIterations\<close>\<close>

definition maxIterations :: nat where
  "maxIterations = 10"

text \<open>
  \<open>while (changed && iterations < cap) { iterations++; body }\<close>, where the body works on the
  tree and the counters and sets \<open>changed\<close>. The result carries the final \<open>iterations\<close>.
\<close>

function whileChanged ::
  "nat \<Rightarrow> ('s \<Rightarrow> error + ('s \<times> bool)) \<Rightarrow> bool \<Rightarrow> nat \<Rightarrow> 's \<Rightarrow> error + (nat \<times> 's)" where
  "whileChanged cap body changed iterations s =
     (if changed \<and> iterations < cap
      then (case body s of
              Inl e \<Rightarrow> Inl e
            | Inr (s', changed') \<Rightarrow> whileChanged cap body changed' (iterations + 1) s')
      else Inr (iterations, s))"
  by pat_completeness auto
termination
  by (relation "measure (\<lambda>(cap, body, changed, iterations, s). cap - iterations)") auto

declare whileChanged.simps [simp del]

text \<open>The passes as the driver calls them: each adds its count to \<open>stats\<close>.\<close>

definition runArrays ::
  "'n number_ops \<Rightarrow> 'n arrays \<Rightarrow> 'n node \<times> stats \<Rightarrow> error + (('n node \<times> stats) \<times> nat)" where
  "runArrays ops arrays s =
     (case inlineConstantArrayAccess ops (fst s) arrays of
        Inl e \<Rightarrow> Inl e
      | Inr (ast, count) \<Rightarrow>
          Inr ((ast, (snd s) \<lparr> constantArrayInlined := constantArrayInlined (snd s) + count \<rparr>),
               count))"

definition runDecoder ::
  "'n number_ops \<Rightarrow> string \<Rightarrow> string list \<Rightarrow> 'n node \<times> stats
     \<Rightarrow> error + (('n node \<times> stats) \<times> nat)" where
  "runDecoder ops decoderFuncName strings s =
     (case inlineStringDecoder ops (fst s) decoderFuncName strings of
        Inl e \<Rightarrow> Inl e
      | Inr (ast, count) \<Rightarrow>
          Inr ((ast, (snd s) \<lparr> stringDecoderInlined := stringDecoderInlined (snd s) + count \<rparr>),
               count))"

definition runFold ::
  "'n number_ops \<Rightarrow> 'n node \<times> stats \<Rightarrow> error + (('n node \<times> stats) \<times> nat)" where
  "runFold ops s =
     (case foldConstantsAndMergeStrings ops (fst s) of
        Inl e \<Rightarrow> Inl e
      | Inr (ast, count) \<Rightarrow>
          Inr ((ast, (snd s) \<lparr> stringsMerged := stringsMerged (snd s) + count,
                                  constantFolded := constantFolded (snd s) + count \<rparr>),
               count))"

definition runResolver ::
  "resolver list \<Rightarrow> 'n node \<times> stats \<Rightarrow> error + (('n node \<times> stats) \<times> nat)" where
  "runResolver resolvers s =
     (case inlineGlobalResolver (fst s) resolvers of
        Inl e \<Rightarrow> Inl e
      | Inr (ast, count) \<Rightarrow>
          Inr ((ast, (snd s) \<lparr> globalResolverInlined := globalResolverInlined (snd s) + count \<rparr>),
               count))"

text \<open>The bodies of the four loops.\<close>

definition phase1_body ::
  "'n number_ops \<Rightarrow> 'n arrays \<Rightarrow> 'n node \<times> stats \<Rightarrow> error + (('n node \<times> stats) \<times> bool)" where
  "phase1_body ops arrays s =
     (case runArrays ops arrays s of
        Inl e \<Rightarrow> Inl e
      | Inr (s1, arrayCount) \<Rightarrow>
          (case runFold ops s1 of
             Inl e \<Rightarrow> Inl e
           | Inr (s2, foldCount) \<Rightarrow> Inr (s2, arrayCount > 0 \<or> foldCount > 0)))"

definition phase2_body ::
  "'n number_ops \<Rightarrow> 'n arrays \<Rightarrow> string \<Rightarrow> string list \<Rightarrow> 'n node \<times> stats
     \<Rightarrow> error + (('n node \<times> stats) \<times> bool)" where
  "phase2_body ops arrays decoderFuncName strings s =
     (case runDecoder ops decoderFuncName strings s of
        Inl e \<Rightarrow> Inl e
      | Inr (s1, decoderCount) \<Rightarrow>
          (case runArrays ops arrays s1 of
             Inl e \<Rightarrow> Inl e
           | Inr (s2, arrayCount) \<Rightarrow> Inr (s2, decoderCount > 0 \<or> arrayCount > 0)))"

definition phase3_body ::
  "'n number_ops \<Rightarrow> 'n node \<times> stats \<Rightarrow> error + (('n node \<times> stats) \<times> bool)" where
  "phase3_body ops s =
     (let prevMerged = stringsMerged (snd s)
      in case runFold ops s of
           Inl e \<Rightarrow> Inl e
         | Inr (s1, count) \<Rightarrow> Inr (s1, stringsMerged (snd s1) > prevMerged))"

definition phase4_body ::
  "resolver list \<Rightarrow> 'n node \<times> stats \<Rightarrow> error + (('n node \<times> stats) \<times> bool)" where
  "phase4_body resolvers s =
     (let prevCount = globalResolverInlined (snd s)
      in case runResolver resolvers s of
           Inl e \<Rightarrow> Inl e
         | Inr (s1, count) \<Rightarrow> Inr (s1, globalResolverInlined (snd s1) > prevCount))"

text \<open>
  Phases 0 to 3, on the parsed tree. The string table and the decoder's name come from
  \<open>extractLZStringDecoder\<close> and \<open>findDecoderFuncName\<close>, which read the parser's scopes and
  the source text; they are arguments here (\<open>None\<close>: not found). The result is the
  constant arrays, the tree and the counters after Phase 3, and the iterations of the
  three loops.
\<close>

record 'n front =
  f_arrays :: "'n arrays"
  f_state :: "'n node \<times> stats"
  f_iterations1 :: nat
  f_iterations2 :: nat
  f_iterations3 :: nat

definition phases1to3 ::
  "'n number_ops \<Rightarrow> string option \<Rightarrow> string list option \<Rightarrow> 'n node \<Rightarrow> error + 'n front" where
  "phases1to3 ops decoderFuncName decodedStrings ast =
     (let constantArrays = extractConstantArrays ops ast in
      case whileChanged maxIterations (phase1_body ops constantArrays) True 0 (ast, resetStats) of
        Inl e \<Rightarrow> Inl e
      | Inr (it1, s1) \<Rightarrow>
          (case (case (decoderFuncName, decodedStrings) of
                   (Some name, Some strings) \<Rightarrow>
                     if name \<noteq> []
                     then whileChanged maxIterations
                            (phase2_body ops constantArrays name strings) True 0 s1
                     else Inr (0, s1)
                 | _ \<Rightarrow> Inr (0, s1)) of
             Inl e \<Rightarrow> Inl e
           | Inr (it2, s2) \<Rightarrow>
               (case whileChanged maxIterations (phase3_body ops) True 0 s2 of
                  Inl e \<Rightarrow> Inl e
                | Inr (it3, s3) \<Rightarrow>
                    Inr \<lparr> f_arrays = constantArrays, f_state = s3, f_iterations1 = it1,
                          f_iterations2 = it2, f_iterations3 = it3 \<rparr>)))"

text \<open>
  The whole run on the tree: Phases 0 to 3, then the discovery of the resolvers on the
  tree as it is by then, Phase 4, and Phase 5 (one cleanup and one last fold).
\<close>

record 'n report =
  out_ast :: "'n node"
  out_stats :: stats
  constantArrays :: "'n arrays"
  resolvers :: "resolver list"
  iterations1 :: nat
  iterations2 :: nat
  iterations3 :: nat
  iterations4 :: nat
  iterations5 :: nat

definition deobfuscate ::
  "'n number_ops \<Rightarrow> string option \<Rightarrow> string list option \<Rightarrow> 'n node \<Rightarrow> error + 'n report" where
  "deobfuscate ops decoderFuncName decodedStrings ast =
     (case phases1to3 ops decoderFuncName decodedStrings ast of
        Inl e \<Rightarrow> Inl e
      | Inr f \<Rightarrow>
          (let found = extractGlobalResolver (fst (f_state f)) in
           case (if found \<noteq> []
                 then whileChanged 3 (phase4_body found) True 0 (f_state f)
                 else Inr (0, f_state f)) of
             Inl e \<Rightarrow> Inl e
           | Inr (it4, s4) \<Rightarrow>
               (case runFold ops (cleanupTransforms ops (fst s4), snd s4) of
                  Inl e \<Rightarrow> Inl e
                | Inr (s5, count) \<Rightarrow>
                    Inr \<lparr> out_ast = fst s5, out_stats = snd s5,
                          constantArrays = f_arrays f, resolvers = found,
                          iterations1 = f_iterations1 f, iterations2 = f_iterations2 f,
                          iterations3 = f_iterations3 f, iterations4 = it4,
                          iterations5 = 1 \<rparr>)))"

lemma whileChanged_cap:
  "whileChanged cap body changed iterations s = Inr (n, s') \<Longrightarrow> n \<le> max cap iterations"
proof (induction cap body changed iterations s rule: whileChanged.induct)
  case (1 cap body changed iterations s)
  show ?case
  proof (cases "changed \<and> iterations < cap")
    case True
    with "1.prems" have "(case body s of
              Inl e \<Rightarrow> Inl e
            | Inr (s', changed') \<Rightarrow> whileChanged cap body changed' (iterations + 1) s')
          = Inr (n, s')"
      by (subst (asm) whileChanged.simps) simp
    then obtain s1 c1 where b: "body s = Inr (s1, c1)"
      and w: "whileChanged cap body c1 (iterations + 1) s1 = Inr (n, s')"
      by (auto split: sum.splits prod.splits)
    from "1.IH" [OF True b refl w] True show ?thesis by simp
  next
    case False
    with "1.prems" show ?thesis
      by (subst (asm) whileChanged.simps) auto
  qed
qed

subsection \<open>Runs on concrete programs\<close>

text \<open>
  Rules for evaluating a run: the loop unfolds on a concrete state only. The programs are
  \<open>var A = [0, ..., 9]; x = A[!0 ? 1 : 0];\<close>, then \<open>x = A[1];\<close> and \<open>x = 1;\<close> after the
  same declaration.
\<close>

lemmas whileChanged_rec = whileChanged.simps [of _ _ _ _ "(a, b)" for a b]

lemmas eval_passes = inlineConstantArrayAccess_def inlineConstantArrayAccess_visit_def
  inlineStringDecoder_def inlineStringDecoder_visit_def
  foldConstantsAndMergeStrings_def foldConstantsAndMergeStrings_visit_def
  inlineGlobalResolver_visit_def
  traverse.simps(1) wbind_def wreturn_def noVisitor_def

lemmas eval_cleanup = cleanupTransforms_def cleanupChildren_def cleanupExit_def cleanupEnter_def
  singleP_def optP_def placeSingle_def placeInList_def placeConsequent_def placeAlternate_def

lemmas eval_driver = deobfuscate_def phases1to3_def phase1_body_def phase2_body_def
  phase3_body_def phase4_body_def runArrays_def runDecoder_def runFold_def runResolver_def
  resetStats_def maxIterations_def whileChanged_rec Let_def
  extractGlobalResolver_def extractGlobalResolver_visit_def tryExtractResolver_def
  caseStep_def returnedName_def store_def

definition prog1 :: "rat node" where
  "prog1 = Program [declareA (literals [0, 1, 2, 3, 4, 5, 6, 7, 8, 9]),
     ExpressionStatement (AssignmentExpression ''='' (Identifier ''x'')
       (MemberExpression (Identifier ''A'')
          (ConditionalExpression (UnaryExpression ''!'' (NumericLiteral 0 None))
             (NumericLiteral 1 None) (NumericLiteral 0 None)) True))]"

definition prog2 :: "rat node" where
  "prog2 = Program [declareA (literals [0, 1, 2, 3, 4, 5, 6, 7, 8, 9]),
     ExpressionStatement (AssignmentExpression ''='' (Identifier ''x'')
       (MemberExpression (Identifier ''A'') (NumericLiteral 1 None) True))]"

definition prog3 :: "rat node" where
  "prog3 = Program [declareA (literals [0, 1, 2, 3, 4, 5, 6, 7, 8, 9]),
     ExpressionStatement (AssignmentExpression ''='' (Identifier ''x'') (NumericLiteral 1 None))]"

subsection \<open>Bounds on the iterations\<close>

lemma whileChanged_from_zero:
  "whileChanged cap body changed 0 s = Inr (n, s') \<Longrightarrow> n \<le> cap"
  using whileChanged_cap [of cap body changed 0 s n s'] by simp

lemma phases1to3_iterations:
  assumes "phases1to3 ops decoderFuncName decodedStrings ast = Inr f"
  shows "f_iterations1 f \<le> 10 \<and> f_iterations2 f \<le> 10 \<and> f_iterations3 f \<le> 10"
proof -
  from assms obtain it1 s1 it2 s2 it3 s3 where
    w1: "whileChanged maxIterations (phase1_body ops (extractConstantArrays ops ast)) True 0
           (ast, resetStats) = Inr (it1, s1)"
    and w2: "(case (decoderFuncName, decodedStrings) of
                   (Some name, Some strings) \<Rightarrow>
                     if name \<noteq> []
                     then whileChanged maxIterations
                            (phase2_body ops (extractConstantArrays ops ast) name strings) True 0 s1
                     else Inr (0, s1)
                 | _ \<Rightarrow> Inr (0, s1)) = Inr (it2, s2)"
    and w3: "whileChanged maxIterations (phase3_body ops) True 0 s2 = Inr (it3, s3)"
    and f: "f = \<lparr> f_arrays = extractConstantArrays ops ast, f_state = s3, f_iterations1 = it1,
                   f_iterations2 = it2, f_iterations3 = it3 \<rparr>"
    by (auto simp: phases1to3_def Let_def split: sum.splits prod.splits)
  from whileChanged_from_zero [OF w1] have "it1 \<le> 10" by (simp add: maxIterations_def)
  moreover from w2 have "it2 \<le> 10"
    by (auto simp: maxIterations_def split: option.splits if_splits
             dest!: whileChanged_from_zero)
  moreover from whileChanged_from_zero [OF w3] have "it3 \<le> 10" by (simp add: maxIterations_def)
  ultimately show ?thesis by (simp add: f)
qed

text \<open>
  C7: a run of \<open>deobfuscate\<close> that returns has made at most 10 iterations of each of the
  loops of Phases 1, 2 and 3, at most 3 of the loop of Phase 4, and Phase 5 once: at most
  \<open>10 + 10 + 10 + 3 + 1\<close> in all. Every loop is defined by a recursion that terminates
  (\<open>whileChanged\<close>, bounded by its cap), and at the cap it ends without an error
  (\<open>whileChanged_at_cap\<close>).
\<close>

theorem deobfuscate_iterations:
  assumes "deobfuscate ops decoderFuncName decodedStrings ast = Inr r"
  shows "iterations1 r \<le> 10 \<and> iterations2 r \<le> 10 \<and> iterations3 r \<le> 10
         \<and> iterations4 r \<le> 3 \<and> iterations5 r = 1
         \<and> iterations1 r + iterations2 r + iterations3 r + iterations4 r + iterations5 r
             \<le> 10 + 10 + 10 + 3 + 1"
proof -
  from assms obtain f it4 s4 s5 count where
    p: "phases1to3 ops decoderFuncName decodedStrings ast = Inr f"
    and w4: "(if extractGlobalResolver (fst (f_state f)) \<noteq> []
              then whileChanged 3 (phase4_body (extractGlobalResolver (fst (f_state f)))) True 0
                     (f_state f)
              else Inr (0, f_state f)) = Inr (it4, s4)"
    and r: "r = \<lparr> out_ast = fst s5, out_stats = snd s5,
                   constantArrays = f_arrays f,
                   resolvers = extractGlobalResolver (fst (f_state f)),
                   iterations1 = f_iterations1 f, iterations2 = f_iterations2 f,
                   iterations3 = f_iterations3 f, iterations4 = it4,
                   iterations5 = 1 \<rparr>"
    by (auto simp: deobfuscate_def Let_def split: sum.splits prod.splits)
  from w4 have "it4 \<le> 3"
    by (auto split: if_splits dest!: whileChanged_from_zero)
  with phases1to3_iterations [OF p] show ?thesis by (simp add: r)
qed

lemma whileChanged_at_cap: "whileChanged cap body changed cap s = Inr (cap, s)"
  by (subst whileChanged.simps) simp

lemma prog1_run:
  "deobfuscate exact_ops None None prog1
     = Inr (projr (deobfuscate exact_ops None None prog1))
   \<and> iterations1 (projr (deobfuscate exact_ops None None prog1)) = 1
   \<and> iterations2 (projr (deobfuscate exact_ops None None prog1)) = 0
   \<and> iterations3 (projr (deobfuscate exact_ops None None prog1)) = 1
   \<and> iterations4 (projr (deobfuscate exact_ops None None prog1)) = 0
   \<and> out_ast (projr (deobfuscate exact_ops None None prog1)) = prog2"
  by (simp add: prog1_def prog2_def eval_driver eval_passes eval_cleanup eval_tree eval_node)

theorem deobfuscate_iterations_witness:
  "iterations1 (projr (deobfuscate exact_ops None None prog1))
     + iterations2 (projr (deobfuscate exact_ops None None prog1))
     + iterations3 (projr (deobfuscate exact_ops None None prog1))
     + iterations4 (projr (deobfuscate exact_ops None None prog1))
     + iterations5 (projr (deobfuscate exact_ops None None prog1)) \<le> 34
   \<and> iterations5 (projr (deobfuscate exact_ops None None prog1)) = 1"
  using deobfuscate_iterations [of exact_ops None None prog1
          "projr (deobfuscate exact_ops None None prog1)"] prog1_run
  by simp

subsection \<open>Where the discovery state comes from\<close>









text \<open>
  The arrays are not discovered again on the rewritten tree. In
  \<open>var A = [0, ..., 8, 1 + 2]; x = A[1];\<close> the array is not recorded on the tree as parsed;
  Phase 1 folds its last element to \<open>3\<close>, after which a discovery would record it, but the
  access \<open>A[1]\<close> stays in the output.
\<close>

definition progB :: "rat node option list \<Rightarrow> rat node" where
  "progB elements = Program [declareA elements,
     ExpressionStatement (AssignmentExpression ''='' (Identifier ''x'')
       (MemberExpression (Identifier ''A'') (NumericLiteral 1 None) True))]"

lemma arrays_of_parsed_tree:
  "extractConstantArrays exact_ops
     (progB (literals [0, 1, 2, 3, 4, 5, 6, 7, 8]
        @ [Some (BinaryExpression ''+'' (NumericLiteral 1 None) (NumericLiteral 2 None))]))
     ''A'' = None
   \<and> deobfuscate exact_ops None None
       (progB (literals [0, 1, 2, 3, 4, 5, 6, 7, 8]
          @ [Some (BinaryExpression ''+'' (NumericLiteral 1 None) (NumericLiteral 2 None))]))
     = Inr (projr (deobfuscate exact_ops None None
       (progB (literals [0, 1, 2, 3, 4, 5, 6, 7, 8]
          @ [Some (BinaryExpression ''+'' (NumericLiteral 1 None) (NumericLiteral 2 None))]))))
   \<and> out_ast (projr (deobfuscate exact_ops None None
       (progB (literals [0, 1, 2, 3, 4, 5, 6, 7, 8]
          @ [Some (BinaryExpression ''+'' (NumericLiteral 1 None) (NumericLiteral 2 None))]))))
     = progB (literals [0, 1, 2, 3, 4, 5, 6, 7, 8, 3])
   \<and> extractConstantArrays exact_ops (progB (literals [0, 1, 2, 3, 4, 5, 6, 7, 8, 3])) ''A''
     \<noteq> None"
  by (simp add: progB_def eval_driver eval_passes eval_cleanup eval_tree eval_node)


subsection \<open>Walks that settle\<close>

text \<open>
  After a walk with an exit visitor only, no node of the result is one the visitor would
  replace, provided that holds of every replacement; and a walk over such a tree changes
  nothing.
\<close>

lemma traverseList_post:
  assumes "\<And>x. x \<in> set xs \<Longrightarrow> wresult E (traverse en ex x) Q"
  shows "wresult E (traverseList en ex xs) (\<lambda>ys. \<forall>y \<in> set ys. Q y)"
  using assms
proof (induction xs)
  case Nil
  then show ?case by simp
next
  case (Cons x xs)
  show ?case
    unfolding traverseList.simps
  proof (rule wresult_bind [where P = Q])
    show "wresult E (traverse en ex x) Q" using Cons.prems by simp
  next
    fix y assume y: "Q y"
    show "wresult E (wbind (traverseList en ex xs) (\<lambda>ys. wreturn (y # ys)))
           (\<lambda>ys. \<forall>y \<in> set ys. Q y)"
    proof (rule wresult_bind [where P = "\<lambda>ys. \<forall>y \<in> set ys. Q y"])
      show "wresult E (traverseList en ex xs) (\<lambda>ys. \<forall>y \<in> set ys. Q y)"
        using Cons.IH Cons.prems by simp
    qed (simp add: y)
  qed
qed

lemma traverseOpt_post:
  assumes "\<And>x. x \<in> set_option xo \<Longrightarrow> wresult E (traverse en ex x) Q"
  shows "wresult E (traverseOpt en ex xo) (\<lambda>yo. \<forall>y \<in> set_option yo. Q y)"
proof (cases xo)
  case None
  then show ?thesis by simp
next
  case (Some x)
  with assms have "wresult E (traverse en ex x) Q" by simp
  then show ?thesis
    unfolding Some traverseOpt.simps
    by (rule wresult_bind) simp
qed

lemma traverseOptList_post:
  assumes "\<And>xo x. xo \<in> set xs \<Longrightarrow> x \<in> set_option xo \<Longrightarrow> wresult E (traverse en ex x) Q"
  shows "wresult E (traverseOptList en ex xs) (\<lambda>ys. \<forall>yo \<in> set ys. \<forall>y \<in> set_option yo. Q y)"
  using assms
proof (induction xs)
  case Nil
  then show ?case by simp
next
  case (Cons xo xs)
  show ?case
    unfolding traverseOptList.simps
  proof (rule wresult_bind [where P = "\<lambda>yo. \<forall>y \<in> set_option yo. Q y"])
    show "wresult E (traverseOpt en ex xo) (\<lambda>yo. \<forall>y \<in> set_option yo. Q y)"
      using Cons.prems by (intro traverseOpt_post) auto
  next
    fix yo assume y: "\<forall>y \<in> set_option yo. Q y"
    show "wresult E (wbind (traverseOptList en ex xs) (\<lambda>ys. wreturn (yo # ys)))
           (\<lambda>ys. \<forall>yo \<in> set ys. \<forall>y \<in> set_option yo. Q y)"
    proof (rule wresult_bind [where P = "\<lambda>ys. \<forall>yo \<in> set ys. \<forall>y \<in> set_option yo. Q y"])
      show "wresult E (traverseOptList en ex xs) (\<lambda>ys. \<forall>yo \<in> set ys. \<forall>y \<in> set_option yo. Q y)"
        using Cons.IH Cons.prems by simp
    qed (simp add: y)
  qed
qed

lemma traverse_visit_settle:
  assumes "wresult E (traverseChildren en ex n) (\<lambda>m. \<forall>c \<in> set (children m). allN P c)"
    and "\<And>n. en n = Inr None"
    and "\<And>m. \<forall>c \<in> set (children m). allN P c \<Longrightarrow>
           (case ex m of Inl e \<Rightarrow> E | Inr None \<Rightarrow> P m | Inr (Some r) \<Rightarrow> allN P r)"
  shows "wresult E (traverse en ex n) (allN P)"
proof (cases "traverseChildren en ex n")
  case (Inl e)
  with assms(1,2) show ?thesis
    by (simp add: traverse.simps(1) wresult_def)
next
  case (Inr p)
  obtain m c where p: "p = (m, c)" by (cases p)
  with Inr assms(1) have k: "\<forall>c \<in> set (children m). allN P c" by (simp add: wresult_def)
  from assms(3) [OF this] k Inr p assms(2) [of n] show ?thesis
    by (auto simp: traverse.simps(1) wresult_def allN_unfold [of P m]
             split: sum.splits option.splits)
qed

lemma traverse_settles:
  assumes en: "\<And>n. en n = Inr None"
    and ex: "\<And>m. \<forall>c \<in> set (children m). allN P c \<Longrightarrow>
           (case ex m of Inl e \<Rightarrow> E | Inr None \<Rightarrow> P m | Inr (Some r) \<Rightarrow> allN P r)"
  shows "wresult E (traverse en ex n) (allN P)"
proof (induction n)
  case (NumericLiteral x1 x2)
  show ?case
  proof (rule traverse_visit_settle [OF _ en ex])
    show "wresult E (traverseChildren en ex (NumericLiteral x1 x2)) (\<lambda>m. \<forall>c \<in> set (children m). allN P c)"
      by simp
  qed
next
  case (StringLiteral x1)
  show ?case
  proof (rule traverse_visit_settle [OF _ en ex])
    show "wresult E (traverseChildren en ex (StringLiteral x1)) (\<lambda>m. \<forall>c \<in> set (children m). allN P c)"
      by simp
  qed
next
  case (BooleanLiteral x1)
  show ?case
  proof (rule traverse_visit_settle [OF _ en ex])
    show "wresult E (traverseChildren en ex (BooleanLiteral x1)) (\<lambda>m. \<forall>c \<in> set (children m). allN P c)"
      by simp
  qed
next
  case NullLiteral
  show ?case
  proof (rule traverse_visit_settle [OF _ en ex])
    show "wresult E (traverseChildren en ex (NullLiteral )) (\<lambda>m. \<forall>c \<in> set (children m). allN P c)"
      by simp
  qed
next
  case (Identifier x1)
  show ?case
  proof (rule traverse_visit_settle [OF _ en ex])
    show "wresult E (traverseChildren en ex (Identifier x1)) (\<lambda>m. \<forall>c \<in> set (children m). allN P c)"
      by simp
  qed
next
  case (UnaryExpression x1 x2)
  show ?case
  proof (rule traverse_visit_settle [OF _ en ex])
    show "wresult E (traverseChildren en ex (UnaryExpression x1 x2)) (\<lambda>m. \<forall>c \<in> set (children m). allN P c)"
      unfolding traverseChildren.simps
      apply (rule wresult_bind [where P = "allN P"])
      subgoal using UnaryExpression by simp
      apply (auto simp: optl_def split: option.splits)
      done
  qed
next
  case (BinaryExpression x1 x2 x3)
  show ?case
  proof (rule traverse_visit_settle [OF _ en ex])
    show "wresult E (traverseChildren en ex (BinaryExpression x1 x2 x3)) (\<lambda>m. \<forall>c \<in> set (children m). allN P c)"
      unfolding traverseChildren.simps
      apply (rule wresult_bind [where P = "allN P"])
      subgoal using BinaryExpression by simp
      apply (rule wresult_bind [where P = "allN P"])
      subgoal using BinaryExpression by simp
      apply (auto simp: optl_def split: option.splits)
      done
  qed
next
  case (LogicalExpression x1 x2 x3)
  show ?case
  proof (rule traverse_visit_settle [OF _ en ex])
    show "wresult E (traverseChildren en ex (LogicalExpression x1 x2 x3)) (\<lambda>m. \<forall>c \<in> set (children m). allN P c)"
      unfolding traverseChildren.simps
      apply (rule wresult_bind [where P = "allN P"])
      subgoal using LogicalExpression by simp
      apply (rule wresult_bind [where P = "allN P"])
      subgoal using LogicalExpression by simp
      apply (auto simp: optl_def split: option.splits)
      done
  qed
next
  case (ConditionalExpression x1 x2 x3)
  show ?case
  proof (rule traverse_visit_settle [OF _ en ex])
    show "wresult E (traverseChildren en ex (ConditionalExpression x1 x2 x3)) (\<lambda>m. \<forall>c \<in> set (children m). allN P c)"
      unfolding traverseChildren.simps
      apply (rule wresult_bind [where P = "allN P"])
      subgoal using ConditionalExpression by simp
      apply (rule wresult_bind [where P = "allN P"])
      subgoal using ConditionalExpression by simp
      apply (rule wresult_bind [where P = "allN P"])
      subgoal using ConditionalExpression by simp
      apply (auto simp: optl_def split: option.splits)
      done
  qed
next
  case (SequenceExpression x1)
  show ?case
  proof (rule traverse_visit_settle [OF _ en ex])
    show "wresult E (traverseChildren en ex (SequenceExpression x1)) (\<lambda>m. \<forall>c \<in> set (children m). allN P c)"
      unfolding traverseChildren.simps
      apply (rule wresult_bind [where P = "\<lambda>ys. \<forall>y \<in> set ys. allN P y"])
      subgoal using SequenceExpression by (intro traverseList_post) auto
      apply (auto simp: optl_def split: option.splits)
      done
  qed
next
  case (MemberExpression x1 x2 x3)
  show ?case
  proof (rule traverse_visit_settle [OF _ en ex])
    show "wresult E (traverseChildren en ex (MemberExpression x1 x2 x3)) (\<lambda>m. \<forall>c \<in> set (children m). allN P c)"
      unfolding traverseChildren.simps
      apply (rule wresult_bind [where P = "allN P"])
      subgoal using MemberExpression by simp
      apply (rule wresult_bind [where P = "allN P"])
      subgoal using MemberExpression by simp
      apply (auto simp: optl_def split: option.splits)
      done
  qed
next
  case (CallExpression x1 x2)
  show ?case
  proof (rule traverse_visit_settle [OF _ en ex])
    show "wresult E (traverseChildren en ex (CallExpression x1 x2)) (\<lambda>m. \<forall>c \<in> set (children m). allN P c)"
      unfolding traverseChildren.simps
      apply (rule wresult_bind [where P = "allN P"])
      subgoal using CallExpression by simp
      apply (rule wresult_bind [where P = "\<lambda>ys. \<forall>y \<in> set ys. allN P y"])
      subgoal using CallExpression by (intro traverseList_post) auto
      apply (auto simp: optl_def split: option.splits)
      done
  qed
next
  case (AssignmentExpression x1 x2 x3)
  show ?case
  proof (rule traverse_visit_settle [OF _ en ex])
    show "wresult E (traverseChildren en ex (AssignmentExpression x1 x2 x3)) (\<lambda>m. \<forall>c \<in> set (children m). allN P c)"
      unfolding traverseChildren.simps
      apply (rule wresult_bind [where P = "allN P"])
      subgoal using AssignmentExpression by simp
      apply (rule wresult_bind [where P = "allN P"])
      subgoal using AssignmentExpression by simp
      apply (auto simp: optl_def split: option.splits)
      done
  qed
next
  case (ArrayExpression x1)
  show ?case
  proof (rule traverse_visit_settle [OF _ en ex])
    show "wresult E (traverseChildren en ex (ArrayExpression x1)) (\<lambda>m. \<forall>c \<in> set (children m). allN P c)"
      unfolding traverseChildren.simps
      apply (rule wresult_bind [where P = "\<lambda>ys. \<forall>yo \<in> set ys. \<forall>y \<in> set_option yo. allN P y"])
      subgoal using ArrayExpression by (intro traverseOptList_post) auto
      apply (auto simp: optl_def split: option.splits)
      done
  qed
next
  case (FunctionExpression x1 x2 x3)
  show ?case
  proof (rule traverse_visit_settle [OF _ en ex])
    show "wresult E (traverseChildren en ex (FunctionExpression x1 x2 x3)) (\<lambda>m. \<forall>c \<in> set (children m). allN P c)"
      unfolding traverseChildren.simps
      apply (rule wresult_bind [where P = "\<lambda>yo. \<forall>y \<in> set_option yo. allN P y"])
      subgoal using FunctionExpression by (intro traverseOpt_post) auto
      apply (rule wresult_bind [where P = "\<lambda>ys. \<forall>y \<in> set ys. allN P y"])
      subgoal using FunctionExpression by (intro traverseList_post) auto
      apply (rule wresult_bind [where P = "allN P"])
      subgoal using FunctionExpression by simp
      apply (auto simp: optl_def split: option.splits)
      done
  qed
next
  case (ExpressionStatement x1)
  show ?case
  proof (rule traverse_visit_settle [OF _ en ex])
    show "wresult E (traverseChildren en ex (ExpressionStatement x1)) (\<lambda>m. \<forall>c \<in> set (children m). allN P c)"
      unfolding traverseChildren.simps
      apply (rule wresult_bind [where P = "allN P"])
      subgoal using ExpressionStatement by simp
      apply (auto simp: optl_def split: option.splits)
      done
  qed
next
  case (VariableDeclaration x1 x2)
  show ?case
  proof (rule traverse_visit_settle [OF _ en ex])
    show "wresult E (traverseChildren en ex (VariableDeclaration x1 x2)) (\<lambda>m. \<forall>c \<in> set (children m). allN P c)"
      unfolding traverseChildren.simps
      apply (rule wresult_bind [where P = "\<lambda>ys. \<forall>y \<in> set ys. allN P y"])
      subgoal using VariableDeclaration by (intro traverseList_post) auto
      apply (auto simp: optl_def split: option.splits)
      done
  qed
next
  case (VariableDeclarator x1 x2)
  show ?case
  proof (rule traverse_visit_settle [OF _ en ex])
    show "wresult E (traverseChildren en ex (VariableDeclarator x1 x2)) (\<lambda>m. \<forall>c \<in> set (children m). allN P c)"
      unfolding traverseChildren.simps
      apply (rule wresult_bind [where P = "allN P"])
      subgoal using VariableDeclarator by simp
      apply (rule wresult_bind [where P = "\<lambda>yo. \<forall>y \<in> set_option yo. allN P y"])
      subgoal using VariableDeclarator by (intro traverseOpt_post) auto
      apply (auto simp: optl_def split: option.splits)
      done
  qed
next
  case (ReturnStatement x1)
  show ?case
  proof (rule traverse_visit_settle [OF _ en ex])
    show "wresult E (traverseChildren en ex (ReturnStatement x1)) (\<lambda>m. \<forall>c \<in> set (children m). allN P c)"
      unfolding traverseChildren.simps
      apply (rule wresult_bind [where P = "\<lambda>yo. \<forall>y \<in> set_option yo. allN P y"])
      subgoal using ReturnStatement by (intro traverseOpt_post) auto
      apply (auto simp: optl_def split: option.splits)
      done
  qed
next
  case (IfStatement x1 x2 x3)
  show ?case
  proof (rule traverse_visit_settle [OF _ en ex])
    show "wresult E (traverseChildren en ex (IfStatement x1 x2 x3)) (\<lambda>m. \<forall>c \<in> set (children m). allN P c)"
      unfolding traverseChildren.simps
      apply (rule wresult_bind [where P = "allN P"])
      subgoal using IfStatement by simp
      apply (rule wresult_bind [where P = "allN P"])
      subgoal using IfStatement by simp
      apply (rule wresult_bind [where P = "\<lambda>yo. \<forall>y \<in> set_option yo. allN P y"])
      subgoal using IfStatement by (intro traverseOpt_post) auto
      apply (auto simp: optl_def split: option.splits)
      done
  qed
next
  case (BlockStatement x1)
  show ?case
  proof (rule traverse_visit_settle [OF _ en ex])
    show "wresult E (traverseChildren en ex (BlockStatement x1)) (\<lambda>m. \<forall>c \<in> set (children m). allN P c)"
      unfolding traverseChildren.simps
      apply (rule wresult_bind [where P = "\<lambda>ys. \<forall>y \<in> set ys. allN P y"])
      subgoal using BlockStatement by (intro traverseList_post) auto
      apply (auto simp: optl_def split: option.splits)
      done
  qed
next
  case EmptyStatement
  show ?case
  proof (rule traverse_visit_settle [OF _ en ex])
    show "wresult E (traverseChildren en ex (EmptyStatement )) (\<lambda>m. \<forall>c \<in> set (children m). allN P c)"
      by simp
  qed
next
  case (SwitchStatement x1 x2)
  show ?case
  proof (rule traverse_visit_settle [OF _ en ex])
    show "wresult E (traverseChildren en ex (SwitchStatement x1 x2)) (\<lambda>m. \<forall>c \<in> set (children m). allN P c)"
      unfolding traverseChildren.simps
      apply (rule wresult_bind [where P = "allN P"])
      subgoal using SwitchStatement by simp
      apply (rule wresult_bind [where P = "\<lambda>ys. \<forall>y \<in> set ys. allN P y"])
      subgoal using SwitchStatement by (intro traverseList_post) auto
      apply (auto simp: optl_def split: option.splits)
      done
  qed
next
  case (SwitchCase x1 x2)
  show ?case
  proof (rule traverse_visit_settle [OF _ en ex])
    show "wresult E (traverseChildren en ex (SwitchCase x1 x2)) (\<lambda>m. \<forall>c \<in> set (children m). allN P c)"
      unfolding traverseChildren.simps
      apply (rule wresult_bind [where P = "\<lambda>yo. \<forall>y \<in> set_option yo. allN P y"])
      subgoal using SwitchCase by (intro traverseOpt_post) auto
      apply (rule wresult_bind [where P = "\<lambda>ys. \<forall>y \<in> set ys. allN P y"])
      subgoal using SwitchCase by (intro traverseList_post) auto
      apply (auto simp: optl_def split: option.splits)
      done
  qed
next
  case (FunctionDeclaration x1 x2 x3)
  show ?case
  proof (rule traverse_visit_settle [OF _ en ex])
    show "wresult E (traverseChildren en ex (FunctionDeclaration x1 x2 x3)) (\<lambda>m. \<forall>c \<in> set (children m). allN P c)"
      unfolding traverseChildren.simps
      apply (rule wresult_bind [where P = "\<lambda>yo. \<forall>y \<in> set_option yo. allN P y"])
      subgoal using FunctionDeclaration by (intro traverseOpt_post) auto
      apply (rule wresult_bind [where P = "\<lambda>ys. \<forall>y \<in> set ys. allN P y"])
      subgoal using FunctionDeclaration by (intro traverseList_post) auto
      apply (rule wresult_bind [where P = "allN P"])
      subgoal using FunctionDeclaration by simp
      apply (auto simp: optl_def split: option.splits)
      done
  qed
next
  case (Program x1)
  show ?case
  proof (rule traverse_visit_settle [OF _ en ex])
    show "wresult E (traverseChildren en ex (Program x1)) (\<lambda>m. \<forall>c \<in> set (children m). allN P c)"
      unfolding traverseChildren.simps
      apply (rule wresult_bind [where P = "\<lambda>ys. \<forall>y \<in> set ys. allN P y"])
      subgoal using Program by (intro traverseList_post) auto
      apply (auto simp: optl_def split: option.splits)
      done
  qed
qed

lemma traverseList_fixed:
  "\<forall>x \<in> set xs. traverse en ex x = Inr (x, 0) \<Longrightarrow> traverseList en ex xs = Inr (xs, 0)"
  by (induction xs) (simp_all add: wbind_def wreturn_def)

lemma traverseOpt_fixed:
  "\<forall>x \<in> set_option xo. traverse en ex x = Inr (x, 0) \<Longrightarrow> traverseOpt en ex xo = Inr (xo, 0)"
  by (cases xo) (simp_all add: wbind_def wreturn_def)

lemma traverseOptList_fixed:
  "\<forall>xo \<in> set xs. \<forall>x \<in> set_option xo. traverse en ex x = Inr (x, 0)
     \<Longrightarrow> traverseOptList en ex xs = Inr (xs, 0)"
proof (induction xs)
  case Nil
  then show ?case by (simp add: wreturn_def)
next
  case (Cons xo xs)
  then have "traverseOpt en ex xo = Inr (xo, 0)" by (intro traverseOpt_fixed) simp
  with Cons show ?case by (simp add: wbind_def wreturn_def)
qed

lemma traverse_fixed:
  "allN (\<lambda>x. en x = Inr None \<and> ex x = Inr None) n \<Longrightarrow> traverse en ex n = Inr (n, 0)"
proof (induction n)
  case (NumericLiteral x1 x2)
  from NumericLiteral.prems have "en (NumericLiteral x1 x2) = Inr None" "ex (NumericLiteral x1 x2) = Inr None"
    by (simp_all add: allN_simps)
  then show ?case
    by (subst traverse.simps(1)) (simp add: wbind_def wreturn_def )
next
  case (StringLiteral x1)
  from StringLiteral.prems have "en (StringLiteral x1) = Inr None" "ex (StringLiteral x1) = Inr None"
    by (simp_all add: allN_simps)
  then show ?case
    by (subst traverse.simps(1)) (simp add: wbind_def wreturn_def )
next
  case (BooleanLiteral x1)
  from BooleanLiteral.prems have "en (BooleanLiteral x1) = Inr None" "ex (BooleanLiteral x1) = Inr None"
    by (simp_all add: allN_simps)
  then show ?case
    by (subst traverse.simps(1)) (simp add: wbind_def wreturn_def )
next
  case NullLiteral
  from NullLiteral.prems have "en NullLiteral = Inr None" "ex NullLiteral = Inr None"
    by (simp_all add: allN_simps)
  then show ?case
    by (subst traverse.simps(1)) (simp add: wbind_def wreturn_def )
next
  case (Identifier x1)
  from Identifier.prems have "en (Identifier x1) = Inr None" "ex (Identifier x1) = Inr None"
    by (simp_all add: allN_simps)
  then show ?case
    by (subst traverse.simps(1)) (simp add: wbind_def wreturn_def )
next
  case (UnaryExpression x1 x2)
  have kx2: "traverse en ex x2 = Inr (x2, 0)"
    using UnaryExpression by (simp add: allN_simps optl_def)
  from UnaryExpression.prems have "en (UnaryExpression x1 x2) = Inr None" "ex (UnaryExpression x1 x2) = Inr None"
    by (simp_all add: allN_simps)
  then show ?case
    by (subst traverse.simps(1)) (simp add: wbind_def wreturn_def kx2)
next
  case (BinaryExpression x1 x2 x3)
  have kx2: "traverse en ex x2 = Inr (x2, 0)"
    using BinaryExpression by (simp add: allN_simps optl_def)
  have kx3: "traverse en ex x3 = Inr (x3, 0)"
    using BinaryExpression by (simp add: allN_simps optl_def)
  from BinaryExpression.prems have "en (BinaryExpression x1 x2 x3) = Inr None" "ex (BinaryExpression x1 x2 x3) = Inr None"
    by (simp_all add: allN_simps)
  then show ?case
    by (subst traverse.simps(1)) (simp add: wbind_def wreturn_def kx2 kx3)
next
  case (LogicalExpression x1 x2 x3)
  have kx2: "traverse en ex x2 = Inr (x2, 0)"
    using LogicalExpression by (simp add: allN_simps optl_def)
  have kx3: "traverse en ex x3 = Inr (x3, 0)"
    using LogicalExpression by (simp add: allN_simps optl_def)
  from LogicalExpression.prems have "en (LogicalExpression x1 x2 x3) = Inr None" "ex (LogicalExpression x1 x2 x3) = Inr None"
    by (simp_all add: allN_simps)
  then show ?case
    by (subst traverse.simps(1)) (simp add: wbind_def wreturn_def kx2 kx3)
next
  case (ConditionalExpression x1 x2 x3)
  have kx1: "traverse en ex x1 = Inr (x1, 0)"
    using ConditionalExpression by (simp add: allN_simps optl_def)
  have kx2: "traverse en ex x2 = Inr (x2, 0)"
    using ConditionalExpression by (simp add: allN_simps optl_def)
  have kx3: "traverse en ex x3 = Inr (x3, 0)"
    using ConditionalExpression by (simp add: allN_simps optl_def)
  from ConditionalExpression.prems have "en (ConditionalExpression x1 x2 x3) = Inr None" "ex (ConditionalExpression x1 x2 x3) = Inr None"
    by (simp_all add: allN_simps)
  then show ?case
    by (subst traverse.simps(1)) (simp add: wbind_def wreturn_def kx1 kx2 kx3)
next
  case (SequenceExpression x1)
  have kx1: "traverseList en ex x1 = Inr (x1, 0)"
    using SequenceExpression by (intro traverseList_fixed) (auto simp: allN_simps optl_def)
  from SequenceExpression.prems have "en (SequenceExpression x1) = Inr None" "ex (SequenceExpression x1) = Inr None"
    by (simp_all add: allN_simps)
  then show ?case
    by (subst traverse.simps(1)) (simp add: wbind_def wreturn_def kx1)
next
  case (MemberExpression x1 x2 x3)
  have kx1: "traverse en ex x1 = Inr (x1, 0)"
    using MemberExpression by (simp add: allN_simps optl_def)
  have kx2: "traverse en ex x2 = Inr (x2, 0)"
    using MemberExpression by (simp add: allN_simps optl_def)
  from MemberExpression.prems have "en (MemberExpression x1 x2 x3) = Inr None" "ex (MemberExpression x1 x2 x3) = Inr None"
    by (simp_all add: allN_simps)
  then show ?case
    by (subst traverse.simps(1)) (simp add: wbind_def wreturn_def kx1 kx2)
next
  case (CallExpression x1 x2)
  have kx1: "traverse en ex x1 = Inr (x1, 0)"
    using CallExpression by (simp add: allN_simps optl_def)
  have kx2: "traverseList en ex x2 = Inr (x2, 0)"
    using CallExpression by (intro traverseList_fixed) (auto simp: allN_simps optl_def)
  from CallExpression.prems have "en (CallExpression x1 x2) = Inr None" "ex (CallExpression x1 x2) = Inr None"
    by (simp_all add: allN_simps)
  then show ?case
    by (subst traverse.simps(1)) (simp add: wbind_def wreturn_def kx1 kx2)
next
  case (AssignmentExpression x1 x2 x3)
  have kx2: "traverse en ex x2 = Inr (x2, 0)"
    using AssignmentExpression by (simp add: allN_simps optl_def)
  have kx3: "traverse en ex x3 = Inr (x3, 0)"
    using AssignmentExpression by (simp add: allN_simps optl_def)
  from AssignmentExpression.prems have "en (AssignmentExpression x1 x2 x3) = Inr None" "ex (AssignmentExpression x1 x2 x3) = Inr None"
    by (simp_all add: allN_simps)
  then show ?case
    by (subst traverse.simps(1)) (simp add: wbind_def wreturn_def kx2 kx3)
next
  case (ArrayExpression x1)
  have kx1: "traverseOptList en ex x1 = Inr (x1, 0)"
    using ArrayExpression by (intro traverseOptList_fixed) (auto simp: allN_simps optl_def)
  from ArrayExpression.prems have "en (ArrayExpression x1) = Inr None" "ex (ArrayExpression x1) = Inr None"
    by (simp_all add: allN_simps)
  then show ?case
    by (subst traverse.simps(1)) (simp add: wbind_def wreturn_def kx1)
next
  case (FunctionExpression x1 x2 x3)
  have kx1: "traverseOpt en ex x1 = Inr (x1, 0)"
    using FunctionExpression by (intro traverseOpt_fixed) (auto simp: allN_simps optl_def)
  have kx2: "traverseList en ex x2 = Inr (x2, 0)"
    using FunctionExpression by (intro traverseList_fixed) (auto simp: allN_simps optl_def)
  have kx3: "traverse en ex x3 = Inr (x3, 0)"
    using FunctionExpression by (simp add: allN_simps optl_def)
  from FunctionExpression.prems have "en (FunctionExpression x1 x2 x3) = Inr None" "ex (FunctionExpression x1 x2 x3) = Inr None"
    by (simp_all add: allN_simps)
  then show ?case
    by (subst traverse.simps(1)) (simp add: wbind_def wreturn_def kx1 kx2 kx3)
next
  case (ExpressionStatement x1)
  have kx1: "traverse en ex x1 = Inr (x1, 0)"
    using ExpressionStatement by (simp add: allN_simps optl_def)
  from ExpressionStatement.prems have "en (ExpressionStatement x1) = Inr None" "ex (ExpressionStatement x1) = Inr None"
    by (simp_all add: allN_simps)
  then show ?case
    by (subst traverse.simps(1)) (simp add: wbind_def wreturn_def kx1)
next
  case (VariableDeclaration x1 x2)
  have kx2: "traverseList en ex x2 = Inr (x2, 0)"
    using VariableDeclaration by (intro traverseList_fixed) (auto simp: allN_simps optl_def)
  from VariableDeclaration.prems have "en (VariableDeclaration x1 x2) = Inr None" "ex (VariableDeclaration x1 x2) = Inr None"
    by (simp_all add: allN_simps)
  then show ?case
    by (subst traverse.simps(1)) (simp add: wbind_def wreturn_def kx2)
next
  case (VariableDeclarator x1 x2)
  have kx1: "traverse en ex x1 = Inr (x1, 0)"
    using VariableDeclarator by (simp add: allN_simps optl_def)
  have kx2: "traverseOpt en ex x2 = Inr (x2, 0)"
    using VariableDeclarator by (intro traverseOpt_fixed) (auto simp: allN_simps optl_def)
  from VariableDeclarator.prems have "en (VariableDeclarator x1 x2) = Inr None" "ex (VariableDeclarator x1 x2) = Inr None"
    by (simp_all add: allN_simps)
  then show ?case
    by (subst traverse.simps(1)) (simp add: wbind_def wreturn_def kx1 kx2)
next
  case (ReturnStatement x1)
  have kx1: "traverseOpt en ex x1 = Inr (x1, 0)"
    using ReturnStatement by (intro traverseOpt_fixed) (auto simp: allN_simps optl_def)
  from ReturnStatement.prems have "en (ReturnStatement x1) = Inr None" "ex (ReturnStatement x1) = Inr None"
    by (simp_all add: allN_simps)
  then show ?case
    by (subst traverse.simps(1)) (simp add: wbind_def wreturn_def kx1)
next
  case (IfStatement x1 x2 x3)
  have kx1: "traverse en ex x1 = Inr (x1, 0)"
    using IfStatement by (simp add: allN_simps optl_def)
  have kx2: "traverse en ex x2 = Inr (x2, 0)"
    using IfStatement by (simp add: allN_simps optl_def)
  have kx3: "traverseOpt en ex x3 = Inr (x3, 0)"
    using IfStatement by (intro traverseOpt_fixed) (auto simp: allN_simps optl_def)
  from IfStatement.prems have "en (IfStatement x1 x2 x3) = Inr None" "ex (IfStatement x1 x2 x3) = Inr None"
    by (simp_all add: allN_simps)
  then show ?case
    by (subst traverse.simps(1)) (simp add: wbind_def wreturn_def kx1 kx2 kx3)
next
  case (BlockStatement x1)
  have kx1: "traverseList en ex x1 = Inr (x1, 0)"
    using BlockStatement by (intro traverseList_fixed) (auto simp: allN_simps optl_def)
  from BlockStatement.prems have "en (BlockStatement x1) = Inr None" "ex (BlockStatement x1) = Inr None"
    by (simp_all add: allN_simps)
  then show ?case
    by (subst traverse.simps(1)) (simp add: wbind_def wreturn_def kx1)
next
  case EmptyStatement
  from EmptyStatement.prems have "en EmptyStatement = Inr None" "ex EmptyStatement = Inr None"
    by (simp_all add: allN_simps)
  then show ?case
    by (subst traverse.simps(1)) (simp add: wbind_def wreturn_def )
next
  case (SwitchStatement x1 x2)
  have kx1: "traverse en ex x1 = Inr (x1, 0)"
    using SwitchStatement by (simp add: allN_simps optl_def)
  have kx2: "traverseList en ex x2 = Inr (x2, 0)"
    using SwitchStatement by (intro traverseList_fixed) (auto simp: allN_simps optl_def)
  from SwitchStatement.prems have "en (SwitchStatement x1 x2) = Inr None" "ex (SwitchStatement x1 x2) = Inr None"
    by (simp_all add: allN_simps)
  then show ?case
    by (subst traverse.simps(1)) (simp add: wbind_def wreturn_def kx1 kx2)
next
  case (SwitchCase x1 x2)
  have kx1: "traverseOpt en ex x1 = Inr (x1, 0)"
    using SwitchCase by (intro traverseOpt_fixed) (auto simp: allN_simps optl_def)
  have kx2: "traverseList en ex x2 = Inr (x2, 0)"
    using SwitchCase by (intro traverseList_fixed) (auto simp: allN_simps optl_def)
  from SwitchCase.prems have "en (SwitchCase x1 x2) = Inr None" "ex (SwitchCase x1 x2) = Inr None"
    by (simp_all add: allN_simps)
  then show ?case
    by (subst traverse.simps(1)) (simp add: wbind_def wreturn_def kx1 kx2)
next
  case (FunctionDeclaration x1 x2 x3)
  have kx1: "traverseOpt en ex x1 = Inr (x1, 0)"
    using FunctionDeclaration by (intro traverseOpt_fixed) (auto simp: allN_simps optl_def)
  have kx2: "traverseList en ex x2 = Inr (x2, 0)"
    using FunctionDeclaration by (intro traverseList_fixed) (auto simp: allN_simps optl_def)
  have kx3: "traverse en ex x3 = Inr (x3, 0)"
    using FunctionDeclaration by (simp add: allN_simps optl_def)
  from FunctionDeclaration.prems have "en (FunctionDeclaration x1 x2 x3) = Inr None" "ex (FunctionDeclaration x1 x2 x3) = Inr None"
    by (simp_all add: allN_simps)
  then show ?case
    by (subst traverse.simps(1)) (simp add: wbind_def wreturn_def kx1 kx2 kx3)
next
  case (Program x1)
  have kx1: "traverseList en ex x1 = Inr (x1, 0)"
    using Program by (intro traverseList_fixed) (auto simp: allN_simps optl_def)
  from Program.prems have "en (Program x1) = Inr None" "ex (Program x1) = Inr None"
    by (simp_all add: allN_simps)
  then show ?case
    by (subst traverse.simps(1)) (simp add: wbind_def wreturn_def kx1)
qed

lemma fold_visit_replacement:
  assumes "foldConstantsAndMergeStrings_visit ops m = Inr (Some r)"
  shows "allN (\<lambda>x. foldConstantsAndMergeStrings_visit ops x = Inr None) r"
proof -
  from assms obtain operator left right where m: "m = BinaryExpression operator left right"
    by (cases m) (auto simp: foldConstantsAndMergeStrings_visit_def)
  from assms consider s where "r = StringLiteral s" | b where "r = BooleanLiteral b"
    | v where "r = NumericLiteral v None"
    | v where "r = UnaryExpression ''-'' (NumericLiteral v None)"
    unfolding m
    by (auto simp: foldConstantsAndMergeStrings_visit_def split: val.splits if_splits)
  then show ?thesis
    by cases (simp_all add: allN_simps foldConstantsAndMergeStrings_visit_def)
qed

lemma fold_visit_total: "foldConstantsAndMergeStrings_visit ops m \<noteq> Inl e"
  by (cases m) (auto simp: foldConstantsAndMergeStrings_visit_def split: val.splits)

lemma foldConstantsAndMergeStrings_stable:
  assumes "foldConstantsAndMergeStrings ops ast = Inr (ast', count)"
  shows "foldConstantsAndMergeStrings ops ast' = Inr (ast', 0)"
proof -
  let ?P = "\<lambda>x. foldConstantsAndMergeStrings_visit ops x = Inr None"
  have "wresult True (traverse noVisitor (foldConstantsAndMergeStrings_visit ops) ast) (allN ?P)"
  proof (rule traverse_settles)
    fix m :: "'a node"
    show "case foldConstantsAndMergeStrings_visit ops m of
            Inl e \<Rightarrow> True | Inr None \<Rightarrow> ?P m | Inr (Some r) \<Rightarrow> allN ?P r"
      by (auto split: sum.splits option.splits dest: fold_visit_replacement)
  qed (simp add: noVisitor_def)
  with assms have "allN ?P ast'"
    by (simp add: foldConstantsAndMergeStrings_def wresult_def)
  then have "allN (\<lambda>x. noVisitor x = Inr None
                      \<and> foldConstantsAndMergeStrings_visit ops x = Inr None) ast'"
    by (simp add: allN_def noVisitor_def)
  from traverse_fixed [OF this] show ?thesis
    by (simp add: foldConstantsAndMergeStrings_def)
qed

text \<open>
  The output of a run is a fixed point of the last step of the pipeline, the constant
  folding: folding the output tree again replaces nothing.
\<close>

lemma deobfuscate_output_folded:
  assumes "deobfuscate ops decoderFuncName decodedStrings ast = Inr r"
  shows "foldConstantsAndMergeStrings ops (out_ast r) = Inr (out_ast r, 0)"
proof -
  from assms obtain t st s5 count where
    "runFold ops (t, st) = Inr (s5, count)" and r: "out_ast r = fst s5"
    by (auto simp: deobfuscate_def Let_def split: sum.splits prod.splits if_splits)
  then obtain c where "foldConstantsAndMergeStrings ops t = Inr (fst s5, c)"
    by (auto simp: runFold_def split: sum.splits prod.splits)
  from foldConstantsAndMergeStrings_stable [OF this] r show ?thesis by simp
qed

lemma prog2_run:
  "deobfuscate exact_ops None None prog2
     = Inr (projr (deobfuscate exact_ops None None prog2))
   \<and> out_ast (projr (deobfuscate exact_ops None None prog2)) = prog3"
  by (simp add: prog2_def prog3_def eval_driver eval_passes eval_cleanup eval_tree eval_node)

text \<open>
  C9: \<open>deobfuscate\<close> is said to be idempotent. The run on
  \<open>var A = [0, ..., 9]; x = A[!0 ? 1 : 0];\<close> returns \<open>x = A[1];\<close> after the same declaration:
  Phase 1 cannot evaluate the index, and only the cleanup of Phase 5 turns it into \<open>1\<close>,
  after the last run of P1. The output still holds an access with a literal index in
  range to an array that a discovery records, and a second run, on that output, returns
  \<open>x = 1;\<close>, a different tree.
\<close>

theorem deobfuscate_second_run_differs:
  "deobfuscate exact_ops None None prog1
     = Inr (projr (deobfuscate exact_ops None None prog1))
   \<and> out_ast (projr (deobfuscate exact_ops None None prog1)) = prog2
   \<and> extractConstantArrays exact_ops prog2 ''A'' \<noteq> None
   \<and> deobfuscate exact_ops None None prog2
     = Inr (projr (deobfuscate exact_ops None None prog2))
   \<and> out_ast (projr (deobfuscate exact_ops None None prog2)) = prog3
   \<and> prog3 \<noteq> prog2"
  using prog1_run prog2_run by (simp add: prog2_def prog3_def eval_tree eval_node)

section \<open>The textual search for the decoder's name\<close>

text \<open>
  The source text is a string of characters and the patterns below only name ASCII
  characters: \<open>\s\<close> is the ASCII white space (the other Unicode spaces are not characters
  of this model), \<open>\w\<close> is \<open>[A-Za-z0-9_]\<close> and \<open>[a-zA-Z_$]\<close> starts a name.
\<close>

definition isSpace :: "char \<Rightarrow> bool" where
  "isSpace c \<longleftrightarrow> c \<in> set [CHR '' '', CHR 0x09, CHR 0x0A, CHR 0x0B, CHR 0x0C, CHR 0x0D]"

definition nameStart :: "char \<Rightarrow> bool" where
  "nameStart c \<longleftrightarrow> c \<in> set ''abcdefghijklmnopqrstuvwxyzABCDEFGHIJKLMNOPQRSTUVWXYZ_$''"

definition isWord :: "char \<Rightarrow> bool" where
  "isWord c \<longleftrightarrow> c \<in> set ''abcdefghijklmnopqrstuvwxyzABCDEFGHIJKLMNOPQRSTUVWXYZ0123456789_''"

text \<open>\<open>s.startsWith(p)\<close>, \<open>code.indexOf(p)\<close>, \<open>code.lastIndexOf(p)\<close> (\<open>None\<close> for \<open>-1\<close>) and
  \<open>code.substring(a, b)\<close> for \<open>a \<le> b\<close>.\<close>

definition startsWith :: "string \<Rightarrow> string \<Rightarrow> bool" where
  "startsWith p s \<longleftrightarrow> take (length p) s = p"

fun indexOf :: "string \<Rightarrow> string \<Rightarrow> nat option" where
  "indexOf p [] = (if p = [] then Some 0 else None)"
| "indexOf p (c # cs) =
     (if startsWith p (c # cs) then Some 0 else map_option Suc (indexOf p cs))"

fun lastIndexOf :: "string \<Rightarrow> string \<Rightarrow> nat option" where
  "lastIndexOf p [] = (if p = [] then Some 0 else None)"
| "lastIndexOf p (c # cs) =
     (case lastIndexOf p cs of
        Some i \<Rightarrow> Some (Suc i)
      | None \<Rightarrow> if startsWith p (c # cs) then Some 0 else None)"

definition substring :: "nat \<Rightarrow> nat \<Rightarrow> string \<Rightarrow> string" where
  "substring a b s = take (b - a) (drop a s)"

text \<open>
  Pieces of the two regular expressions, each applied at the head of the text and giving
  the rest of the text: \<open>\s*\<close>, a literal, and \<open>[a-zA-Z_$]\w*\<close> with its matched text. In
  both expressions every repetition is followed by a character it cannot match, so the
  longest repetition is the only one that can lead to a match.
\<close>

definition ws :: "string \<Rightarrow> string" where
  "ws s = dropWhile isSpace s"

definition lit :: "string \<Rightarrow> string \<Rightarrow> string option" where
  "lit p s = (if startsWith p s then Some (drop (length p) s) else None)"

definition name :: "string \<Rightarrow> (string \<times> string) option" where
  "name s =
     (case s of
        [] \<Rightarrow> None
      | c # cs \<Rightarrow> if nameStart c then Some (c # takeWhile isWord cs, dropWhile isWord cs)
                 else None)"

text \<open>
  The expression of the fallback inside \<open>extractLZStringDecoder\<close>, at the head of the text:
  \<open>([a-zA-Z_$]\w*)\s*=\s*function\s*\([^)]+\)\s*\{\s*return\s+[a-zA-Z_$]\w*\s*\[\s*[a-zA-Z_$]\w*\s*\]\<close>.
  The result is group 1.
\<close>

definition looseAt :: "string \<Rightarrow> string option" where
  "looseAt s =
     Option.bind (name s) (\<lambda>(funcName, r1).
     Option.bind (lit ''='' (ws r1)) (\<lambda>r2.
     Option.bind (lit ''function'' (ws r2)) (\<lambda>r3.
     Option.bind (lit ''('' (ws r3)) (\<lambda>r4.
     if takeWhile (\<lambda>c. c \<noteq> CHR '')'') r4 = [] then None else
     Option.bind (lit '')'' (dropWhile (\<lambda>c. c \<noteq> CHR '')'') r4)) (\<lambda>r5.
     Option.bind (lit ''{'' (ws r5)) (\<lambda>r6.
     Option.bind (lit ''return'' (ws r6)) (\<lambda>r7.
     if takeWhile isSpace r7 = [] then None else
     Option.bind (name (ws r7)) (\<lambda>(arr, r8).
     Option.bind (lit ''['' (ws r8)) (\<lambda>r9.
     Option.bind (name (ws r9)) (\<lambda>(idx, r10).
     Option.bind (lit '']'' (ws r10)) (\<lambda>r11. Some funcName)))))))))))"

text \<open>
  The expression of \<open>findDecoderFuncName\<close>, at the head of the text:
  \<open>([a-zA-Z_$]\w*)\s*=\s*function\s*\(\s*([a-zA-Z_$]\w*)\s*\)\s*\{\s*return\s+([a-zA-Z_$]\w*)\s*\[\s*\2\s*\]\s*;?\s*\}\<close>.
\<close>

definition optSemicolon :: "string \<Rightarrow> string" where
  "optSemicolon s = (case lit '';'' s of Some r \<Rightarrow> r | None \<Rightarrow> s)"

definition strictAt :: "string \<Rightarrow> string option" where
  "strictAt s =
     Option.bind (name s) (\<lambda>(funcName, r1).
     Option.bind (lit ''='' (ws r1)) (\<lambda>r2.
     Option.bind (lit ''function'' (ws r2)) (\<lambda>r3.
     Option.bind (lit ''('' (ws r3)) (\<lambda>r4.
     Option.bind (name (ws r4)) (\<lambda>(param, r5).
     Option.bind (lit '')'' (ws r5)) (\<lambda>r6.
     Option.bind (lit ''{'' (ws r6)) (\<lambda>r7.
     Option.bind (lit ''return'' (ws r7)) (\<lambda>r8.
     if takeWhile isSpace r8 = [] then None else
     Option.bind (name (ws r8)) (\<lambda>(arr, r9).
     Option.bind (lit ''['' (ws r9)) (\<lambda>r10.
     Option.bind (lit param (ws r10)) (\<lambda>r11.
     Option.bind (lit '']'' (ws r11)) (\<lambda>r12.
     Option.bind (lit ''}'' (ws (optSemicolon (ws r12)))) (\<lambda>r13. Some funcName)))))))))))))"

text \<open>\<open>text.match(re)\<close>: the match at the leftmost position where there is one.\<close>

fun firstMatch :: "(string \<Rightarrow> string option) \<Rightarrow> string \<Rightarrow> string option" where
  "firstMatch re [] = re []"
| "firstMatch re (c # cs) =
     (case re (c # cs) of Some m \<Rightarrow> Some m | None \<Rightarrow> firstMatch re cs)"

text \<open>\<open>findDecoderFuncName(code)\<close>\<close>

definition findDecoderFuncName :: "string \<Rightarrow> string option" where
  "findDecoderFuncName code =
     (case lastIndexOf ''decompressFromUTF16'' code of
        None \<Rightarrow> None
      | Some decompressIdx \<Rightarrow>
          firstMatch strictAt (substring decompressIdx (decompressIdx + 1000) code))"

text \<open>
  The fallback inside \<open>extractLZStringDecoder\<close> (\<open>if (!result) { ... }\<close>), which runs when
  the search of the enclosing function's statements found no decoder.
\<close>

definition regexFallback :: "string \<Rightarrow> string option" where
  "regexFallback code =
     (case indexOf ''decompressFromUTF16'' code of
        None \<Rightarrow> None
      | Some decompressIdx \<Rightarrow>
          firstMatch looseAt (substring decompressIdx (decompressIdx + 500) code))"

text \<open>
  The decoder's name that \<open>deobfuscate\<close> ends up with when the string table was obtained
  and the search of the statements failed: the fallback above, and only when it gives
  nothing (\<open>decodedStrings && !decoderFuncName\<close>) \<open>findDecoderFuncName\<close>.
\<close>

definition textualFallback :: "string \<Rightarrow> string option" where
  "textualFallback code =
     (case regexFallback code of
        Some funcName \<Rightarrow> Some funcName
      | None \<Rightarrow> findDecoderFuncName code)"

text \<open>
  A source text with two occurrences of \<open>decompressFromUTF16\<close>: the method of the library
  object \<open>L\<close> at position 7 and the call at position 117. The call sits in a function
  whose statements hold no assignment of a function (the decoder \<open>D\<close> is assigned inside
  an \<open>if\<close>), so the search of the statements finds nothing; the helper \<open>h\<close> follows the
  library.
\<close>

definition code0 :: string where
  "code0 = ''var L={decompressFromUTF16:function(a){return a}};var h;h=function(a){return m[a]};var D;(function(){var s=\"h\",t;t=L.decompressFromUTF16(s).split(\"|\");if(1){D=function(i){return t[i]}}})();''"

lemmas eval_text =
  isSpace_def isWord_def nameStart_def startsWith_def substring_def ws_def lit_def name_def
  looseAt_def strictAt_def optSemicolon_def findDecoderFuncName_def regexFallback_def
  textualFallback_def

text \<open>The compressed string \<open>"h"\<close> of that text decompresses to \<open>"@"\<close>, a table of one string.\<close>

lemma code0_string_table:
  "decompressFromUTF16 (Some [104]) = Returns (VStr [64])"
  by (simp add: codec_eval)

lemma findDecoderFuncName_absent:
  "lastIndexOf ''decompressFromUTF16'' code = None \<Longrightarrow> findDecoderFuncName code = None"
  by (simp add: findDecoderFuncName_def)

text \<open>
  C3: when the search of the statements fails, the textual fallback is said to start from
  the last occurrence of \<open>decompressFromUTF16\<close>, to scan at most 1000 characters for
  \<open>NAME = function(P){ return A[P]; }\<close>, and never to start from the first occurrence. On
  \<open>code0\<close> the name comes from the fallback inside \<open>extractLZStringDecoder\<close>, which starts
  from the first occurrence (position 7, not 117) and takes the helper \<open>h\<close>, whereas the
  search from the last occurrence, \<open>findDecoderFuncName\<close>, finds the decoder \<open>D\<close> and is
  never consulted.
\<close>

theorem textualFallback_first_occurrence:
  "indexOf ''decompressFromUTF16'' code0 = Some 7
   \<and> lastIndexOf ''decompressFromUTF16'' code0 = Some 117
   \<and> regexFallback code0 = Some ''h''
   \<and> textualFallback code0 = Some ''h''
   \<and> findDecoderFuncName code0 = Some ''D''"
  by (simp add: code0_def eval_text)

end
